theory Spec2Isabelle
  imports Complex_Main "HOL-Library.Word" "HOL-Library.Signed_Division"
begin

unbundle bit_operations_syntax

section \<open>Validity bitmaps of libxnd (src/libxnd/bitmaps.c)\<close>

text \<open>
  A shallow embedding of \<^verbatim>\<open>bitmaps.c\<close>: the tree of validity bitmaps that mirrors a
  type descriptor, its construction with rollback, its destructor and the per-element
  accessors.  C objects are modelled as follows.
  \<^item> \<^verbatim>\<open>int64_t\<close> is \<open>64 word\<close>, read with \<open>sint\<close>; \<open>+\<close> and \<open>*\<close> wrap around
    (signed overflow, undefined in C, is modelled as two's complement wrap-around).
  \<^item> \<^verbatim>\<open>uint8_t\<close> is \<open>8 word\<close>; the \<^verbatim>\<open>int\<close> return codes 0, 1 and -1 are HOL integers.
  \<^item> A function that dereferences memory returns an \<open>option\<close>: \<open>None\<close> stands for
    an execution that has no defined result in C (a failed \<^verbatim>\<open>assert\<close>, a read or write
    outside an array, a NULL dereference, freeing a block that is not live).
  \<^item> Memory that the allocator hands out is an explicit heap in the state that every
    operation threads through.
\<close>

subsection \<open>Machine integers\<close>

type_synonym int64 = "64 word"
type_synonym uint8 = "8 word"
type_synonym addr = nat

text \<open>C's \<^verbatim>\<open>/\<close> on \<^verbatim>\<open>int64_t\<close>: the quotient truncated towards zero.\<close>

definition c_div :: "int64 \<Rightarrow> int64 \<Rightarrow> int64" where
  "c_div a b = word_of_int (sint a sdiv sint b)"

text \<open>C's \<^verbatim>\<open>%\<close> on \<^verbatim>\<open>int64_t\<close>: the remainder that goes with the truncated quotient.\<close>

definition c_mod :: "int64 \<Rightarrow> int64 \<Rightarrow> int64" where
  "c_mod a b = word_of_int (sint a smod sint b)"

subsection \<open>Type descriptors (ndtypes.h, read-only)\<close>

text \<open>
  The descriptor \<^verbatim>\<open>ndt_t\<close> is declared in \<^verbatim>\<open>ndtypes.h\<close>, which is not part of the
  sources.  The model keeps exactly what \<^verbatim>\<open>bitmaps.c\<close> reads from it.  The fields common
  to every descriptor are the access kind (\<^verbatim>\<open>ndt_is_concrete\<close>), the number of
  dimensions \<^verbatim>\<open>t->ndim\<close>, and the two flags behind \<^verbatim>\<open>ndt_is_optional\<close> and
  \<^verbatim>\<open>ndt_subtree_is_optional\<close>.  They are stored, not computed: the code reads each of
  them independently.
\<close>

record ndt_common =
  concrete :: bool
  ndim :: int
  opt :: bool
  subtree_opt :: bool

text \<open>
  The tags \<^verbatim>\<open>bitmap_init\<close> dispatches on, each with the members of the union that the
  code reads:
  \<^item> \<open>FixedDim\<close>: \<^verbatim>\<open>t->FixedDim.shape\<close> and \<^verbatim>\<open>t->FixedDim.type\<close>;
  \<^item> \<open>VarDim\<close>: the array \<^verbatim>\<open>t->Concrete.VarDim.offsets\<close> (its length is
    \<^verbatim>\<open>noffsets\<close>; the entries are given as the \<^verbatim>\<open>int64_t\<close> they are read into) and the
    result of \<^verbatim>\<open>ndt_dtype(t)\<close>;
  \<^item> \<open>Tuple\<close> and \<open>Record\<close>: the array \<^verbatim>\<open>types\<close>, whose length is \<^verbatim>\<open>shape\<close>;
  \<^item> \<open>Other\<close>: every other tag (the \<^verbatim>\<open>default\<close> branch), scalars among them.
\<close>

datatype ndt =
    FixedDim ndt_common int64 ndt
  | VarDim ndt_common "int64 list" ndt
  | Tuple ndt_common "ndt list"
  | Record ndt_common "ndt list"
  | Other ndt_common

fun common :: "ndt \<Rightarrow> ndt_common" where
  "common (FixedDim h shape t) = h"
| "common (VarDim h offsets t) = h"
| "common (Tuple h ts) = h"
| "common (Record h ts) = h"
| "common (Other h) = h"

definition ndt_is_concrete :: "ndt \<Rightarrow> bool" where
  "ndt_is_concrete t = concrete (common t)"

definition ndt_is_optional :: "ndt \<Rightarrow> bool" where
  "ndt_is_optional t = opt (common t)"

definition ndt_subtree_is_optional :: "ndt \<Rightarrow> bool" where
  "ndt_subtree_is_optional t = subtree_opt (common t)"

definition t_ndim :: "ndt \<Rightarrow> int" where
  "t_ndim t = ndim (common t)"

subsection \<open>Bitmap nodes and memory\<close>

text \<open>
  \<^verbatim>\<open>xnd_bitmap_t\<close> is \<^verbatim>\<open>{uint8_t *data; int64_t size; xnd_bitmap_t *next;}\<close>.  A pointer
  is \<open>None\<close> for NULL and \<open>Some a\<close> for the address of a block.  The array behind
  \<^verbatim>\<open>next\<close> is owned by the node alone, so its elements are kept with the pointer; the
  bytes behind \<^verbatim>\<open>data\<close> are reached through copies of the node (\<^verbatim>\<open>x->bitmap\<close>) and live
  in the heap.
\<close>

datatype xnd_bitmap =
  Bitmap (b_data: "addr option") (b_size: int64) (b_next: "(addr \<times> xnd_bitmap list) option")

text \<open>The node \<^verbatim>\<open>bitmap_init\<close> expects and \<^verbatim>\<open>calloc\<close> produces: all members zero.\<close>

definition xnd_bitmap_empty :: xnd_bitmap where
  "xnd_bitmap_empty = Bitmap None 0 None"

text \<open>
  A block of the heap: the bytes of a leaf buffer, or an array of nodes (only its
  length is recorded here, the nodes themselves are held by the owner).
\<close>

datatype block = Bytes "uint8 list" | Nodes nat

datatype ndt_error = MemoryError

text \<open>
  The state the functions thread through.  \<open>heap\<close> lists every block ever handed out,
  at its address; a freed block is \<open>None\<close>.  \<open>grants\<close> is the behaviour of the
  allocator: one entry per coming request (\<open>False\<close>: the request fails); when it runs
  out, requests are granted.  \<open>err\<close> is the error slot of \<^verbatim>\<open>ndt_context_t\<close>.
\<close>

record mem =
  heap :: "block option list"
  grants :: "bool list"
  err :: "ndt_error option"

text \<open>
  \<^verbatim>\<open>ndt_calloc(nmemb, size)\<close> (ndtypes, a wrapper of \<^verbatim>\<open>calloc\<close>): a zero-filled block at
  a fresh address, or NULL.  Both arguments are \<^verbatim>\<open>size_t\<close>, 64 bits wide.  A request
  whose byte count \<open>nmemb * size\<close> does not fit \<^verbatim>\<open>size_t\<close> fails; any other request
  fails when the allocator says so.  The caller passes the zero-filled block it asks
  for.
\<close>

definition ndt_calloc :: "nat \<Rightarrow> nat \<Rightarrow> block \<Rightarrow> mem \<Rightarrow> addr option \<times> mem" where
  "ndt_calloc nmemb sz blk s =
     (case grants s of
        [] \<Rightarrow>
          if nmemb * sz < 2 ^ 64
          then (Some (length (heap s)), s\<lparr>heap := heap s @ [Some blk]\<rparr>)
          else (None, s)
      | g # gs \<Rightarrow>
          if g \<and> nmemb * sz < 2 ^ 64
          then (Some (length (heap s)), s\<lparr>heap := heap s @ [Some blk], grants := gs\<rparr>)
          else (None, s\<lparr>grants := gs\<rparr>))"

text \<open>\<^verbatim>\<open>sizeof (xnd_bitmap_t)\<close>: two pointers and an \<^verbatim>\<open>int64_t\<close>, 8 bytes each.\<close>

definition sizeof_xnd_bitmap :: nat where
  "sizeof_xnd_bitmap = 24"

text \<open>
  \<^verbatim>\<open>ndt_free\<close> (ndtypes, a wrapper of \<^verbatim>\<open>free\<close>): releases the block;
  \<^verbatim>\<open>ndt_free(NULL)\<close> does nothing.  Freeing an address that is not the address of a
  live block (one never handed out, or freed before) has no defined result.
\<close>

definition ndt_free :: "addr option \<Rightarrow> mem \<Rightarrow> mem option" where
  "ndt_free p s =
     (case p of
        None \<Rightarrow> Some s
      | Some a \<Rightarrow>
          if a < length (heap s) \<and> heap s ! a \<noteq> None
          then Some (s\<lparr>heap := (heap s)[a := None]\<rparr>)
          else None)"

text \<open>\<^verbatim>\<open>ndt_memory_error\<close> (ndtypes): records the error in the context, returns NULL.\<close>

definition ndt_memory_error :: "mem \<Rightarrow> mem" where
  "ndt_memory_error s = s\<lparr>err := Some MemoryError\<rparr>"

subsection \<open>Allocation (lines 42--72)\<close>

definition bitmap_size :: "int64 \<Rightarrow> int64" where
  "bitmap_size nelem = c_div (nelem + 7) 8"

text \<open>The \<^verbatim>\<open>int64_t\<close> count becomes the \<^verbatim>\<open>size_t\<close> argument of \<^verbatim>\<open>ndt_calloc\<close>: \<open>unat\<close>.\<close>

definition bits_new :: "int64 \<Rightarrow> mem \<Rightarrow> addr option \<times> mem" where
  "bits_new n s =
     (case ndt_calloc (unat (bitmap_size n)) 1 (Bytes (replicate (unat (bitmap_size n)) 0)) s of
        (None, s') \<Rightarrow> (None, ndt_memory_error s')
      | (Some a, s') \<Rightarrow> (Some a, s'))"

definition bitmap_array_new :: "int64 \<Rightarrow> mem \<Rightarrow> (addr \<times> xnd_bitmap list) option \<times> mem" where
  "bitmap_array_new n s =
     (case ndt_calloc (unat n) sizeof_xnd_bitmap (Nodes (unat n)) s of
        (None, s') \<Rightarrow> (None, ndt_memory_error s')
      | (Some a, s') \<Rightarrow> (Some (a, replicate (unat n) xnd_bitmap_empty), s'))"

subsection \<open>The destructor (lines 172--188)\<close>

text \<open>
  \<^verbatim>\<open>xnd_bitmap_clear\<close> frees \<^verbatim>\<open>b->data\<close> and sets it to NULL; if \<^verbatim>\<open>b->next\<close> is not
  NULL it clears the elements \<^verbatim>\<open>b->next[0 .. b->size-1]\<close>, frees the array and sets
  \<^verbatim>\<open>b->next\<close> to NULL.  \<^verbatim>\<open>b->size\<close> is not written.  \<open>clear_array k cs\<close> is the
  \<^verbatim>\<open>for\<close> loop with \<open>k\<close> iterations to go and \<open>cs\<close> the rest of the array; running
  past the end of the array has no defined result, and neither has a call of
  \<^verbatim>\<open>ndt_free\<close> that has none.
\<close>

fun xnd_bitmap_clear :: "xnd_bitmap \<Rightarrow> mem \<Rightarrow> (xnd_bitmap \<times> mem) option"
  and clear_array :: "nat \<Rightarrow> xnd_bitmap list \<Rightarrow> mem \<Rightarrow> (xnd_bitmap list \<times> mem) option"
where
  "xnd_bitmap_clear (Bitmap d n nx) s =
     (case ndt_free d s of
        None \<Rightarrow> None
      | Some s1 \<Rightarrow>
          (case nx of
             None \<Rightarrow> Some (Bitmap None n None, s1)
           | Some (a, cs) \<Rightarrow>
               (case clear_array (nat (sint n)) cs s1 of
                  None \<Rightarrow> None
                | Some (cs', s2) \<Rightarrow>
                    (case ndt_free (Some a) s2 of
                       None \<Rightarrow> None
                     | Some s3 \<Rightarrow> Some (Bitmap None n None, s3)))))"
| "clear_array 0 cs s = Some (cs, s)"
| "clear_array (Suc k) [] s = None"
| "clear_array (Suc k) (c # cs) s =
     (case xnd_bitmap_clear c s of
        None \<Rightarrow> None
      | Some (c', s') \<Rightarrow>
          (case clear_array k cs s' of
             None \<Rightarrow> None
           | Some (cs', s'') \<Rightarrow> Some (c' # cs', s'')))"

subsection \<open>The builder (lines 74--170)\<close>

text \<open>\<^verbatim>\<open>b->next + idx\<close>: the element of the child array, if \<open>idx\<close> is inside it.\<close>

definition child :: "xnd_bitmap \<Rightarrow> nat \<Rightarrow> xnd_bitmap option" where
  "child b idx =
     (case b_next b of
        None \<Rightarrow> None
      | Some (a, cs) \<Rightarrow> if idx < length cs then Some (cs ! idx) else None)"

text \<open>The write through \<^verbatim>\<open>b->next + idx\<close> that the recursive call performs.\<close>

definition set_child :: "xnd_bitmap \<Rightarrow> nat \<Rightarrow> xnd_bitmap \<Rightarrow> xnd_bitmap" where
  "set_child b idx c =
     Bitmap (b_data b) (b_size b) (map_option (\<lambda>(a, cs). (a, cs[idx := c])) (b_next b))"

lemma size_field_less:
  fixes ts :: "ndt list"
  shows "k < length ts \<Longrightarrow> 2 * size (ts ! k) < Suc (2 * size_list size ts)"
proof (induction ts arbitrary: k)
  case Nil
  then show ?case by simp
next
  case (Cons t ts)
  then show ?case by (cases k) fastforce+
qed

text \<open>
  \<open>bitmap_init b t nitems s\<close> returns the return code, the node \<^verbatim>\<open>*b\<close> and the state
  after the call.  The four \<^verbatim>\<open>assert\<close>s come first.  The \<open>Tuple\<close> and \<open>Record\<close>
  branches are the same text in the source and share \<open>init_loop\<close>, the two nested
  \<^verbatim>\<open>for\<close> loops: \<open>init_loop b ts nitems i k s\<close> is the point of the loops where the
  counters are \<open>i\<close> and \<open>k\<close>; \<open>length ts\<close> is \<^verbatim>\<open>shape\<close>.  The index \<^verbatim>\<open>i*shape + k\<close> must
  be representable and inside the array.
\<close>

function bitmap_init :: "xnd_bitmap \<Rightarrow> ndt \<Rightarrow> int64 \<Rightarrow> mem \<Rightarrow> (int \<times> xnd_bitmap \<times> mem) option"
  and init_loop ::
    "xnd_bitmap \<Rightarrow> ndt list \<Rightarrow> nat \<Rightarrow> nat \<Rightarrow> nat \<Rightarrow> mem \<Rightarrow> (int \<times> xnd_bitmap \<times> mem) option"
where
  "bitmap_init b t nitems s =
     (if \<not> ndt_is_concrete t \<or> b_data b \<noteq> None \<or> b_size b \<noteq> 0 \<or> b_next b \<noteq> None then None
      else
        case (if t_ndim t = 0 \<and> ndt_is_optional t
              then (case bits_new nitems s of
                      (None, s1) \<Rightarrow> Inl s1
                    | (Some a, s1) \<Rightarrow> Inr (Bitmap (Some a) (b_size b) (b_next b), s1))
              else Inr (b, s)) of
          Inl s1 \<Rightarrow> Some (- 1, b, s1)
        | Inr (b1, s1) \<Rightarrow>
            if \<not> ndt_subtree_is_optional t then Some (0, b1, s1)
            else
              (case t of
                 FixedDim h shape e \<Rightarrow> bitmap_init b1 e (nitems * shape) s1
               | VarDim h offsets dtype \<Rightarrow>
                   (if offsets = [] then None else bitmap_init b1 dtype (last offsets) s1)
               | Tuple h ts \<Rightarrow>
                   (let n = nitems * of_nat (length ts) in
                    case bitmap_array_new n s1 of
                      (None, s2) \<Rightarrow>
                        (case xnd_bitmap_clear b1 s2 of
                           None \<Rightarrow> None
                         | Some (b2, s3) \<Rightarrow> Some (- 1, b2, s3))
                    | (Some arr, s2) \<Rightarrow>
                        init_loop (Bitmap (b_data b1) n (Some arr)) ts (nat (sint nitems)) 0 0 s2)
               | Record h ts \<Rightarrow>
                   (let n = nitems * of_nat (length ts) in
                    case bitmap_array_new n s1 of
                      (None, s2) \<Rightarrow>
                        (case xnd_bitmap_clear b1 s2 of
                           None \<Rightarrow> None
                         | Some (b2, s3) \<Rightarrow> Some (- 1, b2, s3))
                    | (Some arr, s2) \<Rightarrow>
                        init_loop (Bitmap (b_data b1) n (Some arr)) ts (nat (sint nitems)) 0 0 s2)
               | Other h \<Rightarrow> Some (0, b1, s1)))"
| "init_loop b ts nitems i k s =
     (if i < nitems then
        if k < length ts then
          (let idx = i * length ts + k in
           if \<not> int idx < 2 ^ 63 then None
           else
             case child b idx of
               None \<Rightarrow> None
             | Some c \<Rightarrow>
                 (case bitmap_init c (ts ! k) 1 s of
                    None \<Rightarrow> None
                  | Some (rc, c', s') \<Rightarrow>
                      if rc < 0 then
                        (case xnd_bitmap_clear (set_child b idx c') s' of
                           None \<Rightarrow> None
                         | Some (b', s'') \<Rightarrow> Some (- 1, b', s''))
                      else init_loop (set_child b idx c') ts nitems i (Suc k) s'))
        else init_loop b ts nitems (Suc i) 0 s
      else Some (0, b, s))"
  by pat_completeness auto
termination
  by (relation "measures
    [\<lambda>x. case x of Inl (b, t, nitems, s) \<Rightarrow> 2 * size t
                  | Inr (b, ts, nitems, i, k, s) \<Rightarrow> 2 * size_list size ts + 1,
     \<lambda>x. case x of Inl (b, t, nitems, s) \<Rightarrow> 0
                  | Inr (b, ts, nitems, i, k, s) \<Rightarrow> nitems - i,
     \<lambda>x. case x of Inl (b, t, nitems, s) \<Rightarrow> 0
                  | Inr (b, ts, nitems, i, k, s) \<Rightarrow> length ts - k]")
    (auto dest: size_field_less)

declare bitmap_init.simps [simp del] init_loop.simps [simp del]

definition xnd_bitmap_init :: "xnd_bitmap \<Rightarrow> ndt \<Rightarrow> mem \<Rightarrow> (int \<times> xnd_bitmap \<times> mem) option" where
  "xnd_bitmap_init b t s = bitmap_init b t 1 s"

subsection \<open>The accessors (lines 190--232)\<close>

text \<open>
  \<^verbatim>\<open>xnd_t\<close> (declared in \<^verbatim>\<open>xnd.h\<close>): the members the accessors read are the copy of the
  responsible node \<^verbatim>\<open>x->bitmap\<close>, the linear index \<^verbatim>\<open>x->index\<close> and the type
  \<^verbatim>\<open>x->type\<close>.
\<close>

record xnd_t =
  x_bitmap :: xnd_bitmap
  x_index :: int64
  x_type :: ndt

text \<open>\<^verbatim>\<open>p[i]\<close> read and written for a \<^verbatim>\<open>uint8_t *p\<close>; \<open>None\<close> outside a live buffer.\<close>

definition load_byte :: "mem \<Rightarrow> addr option \<Rightarrow> int \<Rightarrow> uint8 option" where
  "load_byte s p i =
     (case p of
        None \<Rightarrow> None
      | Some a \<Rightarrow>
          if a < length (heap s) then
            (case heap s ! a of
               Some (Bytes bs) \<Rightarrow> if 0 \<le> i \<and> nat i < length bs then Some (bs ! nat i) else None
             | _ \<Rightarrow> None)
          else None)"

definition store_byte :: "mem \<Rightarrow> addr option \<Rightarrow> int \<Rightarrow> uint8 \<Rightarrow> mem option" where
  "store_byte s p i v =
     (case p of
        None \<Rightarrow> None
      | Some a \<Rightarrow>
          if a < length (heap s) then
            (case heap s ! a of
               Some (Bytes bs) \<Rightarrow>
                 if 0 \<le> i \<and> nat i < length bs
                 then Some (s\<lparr>heap := (heap s)[a := Some (Bytes (bs[nat i := v]))]\<rparr>)
                 else None
             | _ \<Rightarrow> None)
          else None)"

text \<open>
  The mask \<^verbatim>\<open>1 << (n % 8)\<close>.  It is an \<^verbatim>\<open>int\<close> between 1 and 128 (\<open>n\<close> is not negative
  where it is used), so the byte-wide operations below lose nothing.
\<close>

definition bit_mask :: "int64 \<Rightarrow> uint8" where
  "bit_mask n = push_bit (nat (sint (c_mod n 8))) 1"

definition xnd_set_valid :: "xnd_t \<Rightarrow> mem \<Rightarrow> mem option" where
  "xnd_set_valid x s =
     (let t = x_type x; n = x_index x in
      if \<not> ndt_is_optional t then None
      else if \<not> 0 \<le>s n then None
      else
        case load_byte s (b_data (x_bitmap x)) (sint (c_div n 8)) of
          None \<Rightarrow> None
        | Some v \<Rightarrow> store_byte s (b_data (x_bitmap x)) (sint (c_div n 8)) (v OR bit_mask n))"

text \<open>
  The static function \<^verbatim>\<open>_xnd_is_valid\<close>: the value of
  \<^verbatim>\<open>x->bitmap.data[n / 8] & (1 << (n % 8))\<close>, which is 0 or the mask itself.
\<close>

definition static_xnd_is_valid :: "xnd_t \<Rightarrow> mem \<Rightarrow> int option" where
  "static_xnd_is_valid x s =
     (let t = x_type x; n = x_index x in
      if \<not> ndt_is_optional t then None
      else if \<not> 0 \<le>s n then None
      else
        case load_byte s (b_data (x_bitmap x)) (sint (c_div n 8)) of
          None \<Rightarrow> None
        | Some v \<Rightarrow> Some (uint (v AND bit_mask n)))"

definition xnd_is_valid :: "xnd_t \<Rightarrow> mem \<Rightarrow> int option" where
  "xnd_is_valid x s =
     (if \<not> ndt_is_optional (x_type x) then Some 1
      else static_xnd_is_valid x s)"

text \<open>C's \<^verbatim>\<open>!\<close>: 1 for 0, and 0 for everything else.\<close>

definition c_not :: "int \<Rightarrow> int" where
  "c_not v = (if v = 0 then 1 else 0)"

definition xnd_is_na :: "xnd_t \<Rightarrow> mem \<Rightarrow> int option" where
  "xnd_is_na x s =
     (if \<not> ndt_is_optional (x_type x) then Some 0
      else map_option c_not (static_xnd_is_valid x s))"

text \<open>A run of \<^verbatim>\<open>xnd_set_valid\<close> calls, one after the other, at the given positions.\<close>

fun set_valid_seq :: "xnd_t list \<Rightarrow> mem \<Rightarrow> mem option" where
  "set_valid_seq [] s = Some s"
| "set_valid_seq (x # xs) s =
     (case xnd_set_valid x s of None \<Rightarrow> None | Some s' \<Rightarrow> set_valid_seq xs s')"

subsection \<open>The steps of the builder, named\<close>

text \<open>
  Two parts of the body of \<^verbatim>\<open>bitmap_init\<close>, for the proofs.  \<open>data_step\<close> is lines
  87--92 on a node that passed the \<^verbatim>\<open>assert\<close>s: the state after a failed request, or
  the node and the state to go on with.  \<open>init_fields\<close> is the body of the \<open>Tuple\<close>
  and \<open>Record\<close> branches.
\<close>

definition data_step :: "ndt \<Rightarrow> int64 \<Rightarrow> mem \<Rightarrow> mem + xnd_bitmap \<times> mem" where
  "data_step t nitems s =
     (if t_ndim t = 0 \<and> ndt_is_optional t
      then (case bits_new nitems s of
              (None, s1) \<Rightarrow> Inl s1
            | (Some a, s1) \<Rightarrow> Inr (Bitmap (Some a) 0 None, s1))
      else Inr (xnd_bitmap_empty, s))"

definition init_fields ::
    "xnd_bitmap \<Rightarrow> ndt list \<Rightarrow> int64 \<Rightarrow> mem \<Rightarrow> (int \<times> xnd_bitmap \<times> mem) option" where
  "init_fields b1 ts nitems s1 =
     (let n = nitems * of_nat (length ts) in
      case bitmap_array_new n s1 of
        (None, s2) \<Rightarrow>
          (case xnd_bitmap_clear b1 s2 of
             None \<Rightarrow> None
           | Some (b2, s3) \<Rightarrow> Some (- 1, b2, s3))
      | (Some arr, s2) \<Rightarrow>
          init_loop (Bitmap (b_data b1) n (Some arr)) ts (nat (sint nitems)) 0 0 s2)"

subsection \<open>What a node owns\<close>

text \<open>
  The addresses a node owns: its buffer, its child array and what its children own;
  \<open>addr_list\<close> lists them in the order in which \<^verbatim>\<open>xnd_bitmap_clear\<close> frees them, so
  that no block is held twice exactly when the list is distinct.
  A node is well formed when \<^verbatim>\<open>size\<close> is the length of the array behind \<^verbatim>\<open>next\<close>, in
  the node and in every descendant.  \<open>release A h\<close> is the heap \<open>h\<close> after the blocks
  at the addresses \<open>A\<close> have been freed.  \<open>holds b s\<close>: every block the node owns is
  live in \<open>s\<close>, and none is owned twice.
\<close>

fun addrs :: "xnd_bitmap \<Rightarrow> addr set" where
  "addrs (Bitmap d n nx) =
     set_option d \<union> (case nx of None \<Rightarrow> {} | Some (a, cs) \<Rightarrow> insert a (\<Union>c \<in> set cs. addrs c))"

fun addr_list :: "xnd_bitmap \<Rightarrow> addr list" where
  "addr_list (Bitmap d n nx) =
     (case d of None \<Rightarrow> [] | Some a \<Rightarrow> [a]) @
     (case nx of None \<Rightarrow> [] | Some (a, cs) \<Rightarrow> concat (map addr_list cs) @ [a])"

fun wf_bitmap :: "xnd_bitmap \<Rightarrow> bool" where
  "wf_bitmap (Bitmap d n nx) =
     (case nx of
        None \<Rightarrow> True
      | Some (a, cs) \<Rightarrow> nat (sint n) = length cs \<and> (\<forall>c \<in> set cs. wf_bitmap c))"

definition release :: "addr set \<Rightarrow> block option list \<Rightarrow> block option list" where
  "release A h = map (\<lambda>i. if i \<in> A then None else h ! i) [0..<length h]"

definition holds :: "xnd_bitmap \<Rightarrow> mem \<Rightarrow> bool" where
  "holds b s =
     (distinct (addr_list b) \<and> (\<forall>a \<in> addrs b. a < length (heap s) \<and> heap s ! a \<noteq> None))"

subsection \<open>What a run of the builder leaves behind\<close>

text \<open>
  \<open>owned s0 b s\<close>: the heap of \<open>s\<close> is the heap of \<open>s0\<close> followed by newer blocks;
  the node \<open>b\<close> is well formed and owns only newer blocks, each of them live and none
  twice; and every newer block that is still live is owned by \<open>b\<close>.
\<close>

definition owned :: "mem \<Rightarrow> xnd_bitmap \<Rightarrow> mem \<Rightarrow> bool" where
  "owned s0 b s =
     ((\<exists>ext. heap s = heap s0 @ ext) \<and> wf_bitmap b \<and> holds b s \<and>
      (\<forall>a \<in> addrs b. length (heap s0) \<le> a \<and> a < length (heap s)) \<and>
      (\<forall>a. length (heap s0) \<le> a \<and> a < length (heap s) \<and> heap s ! a \<noteq> None \<longrightarrow> a \<in> addrs b))"

text \<open>
  \<open>requests rc s s'\<close>: the requests made between \<open>s\<close> and \<open>s'\<close> took their answers
  from the front of \<open>grants s\<close>; when the return code is 0 all of them were granted and
  the error slot is untouched, otherwise the error slot holds \<open>MemoryError\<close>.
\<close>

definition requests :: "int \<Rightarrow> mem \<Rightarrow> mem \<Rightarrow> bool" where
  "requests rc s s' =
     ((\<exists>used. grants s = used @ grants s' \<and> (rc = 0 \<longrightarrow> used = replicate (length used) True)) \<and>
      (rc = 0 \<or> rc = - 1) \<and>
      (rc = 0 \<longrightarrow> err s' = err s) \<and> (rc = - 1 \<longrightarrow> err s' = Some MemoryError))"

text \<open>
  \<open>post s0 s r\<close>: what holds of a result \<open>r\<close> of the builder or of its loops, started
  in state \<open>s\<close>, with everything allocated since \<open>s0\<close> attributed to the node.
\<close>

definition post :: "mem \<Rightarrow> mem \<Rightarrow> int \<times> xnd_bitmap \<times> mem \<Rightarrow> bool" where
  "post s0 s r =
     (case r of (rc, b', s') \<Rightarrow>
        owned s0 b' s' \<and> requests rc s s' \<and>
        (rc = - 1 \<longrightarrow> b_data b' = None \<and> b_next b' = None))"

subsection \<open>Descriptors on which the builder is defined\<close>

text \<open>
  \<open>build_defined t nitems\<close> collects what \<^verbatim>\<open>bitmap_init\<close> relies on when it walks the
  descriptor \<open>t\<close> for \<open>nitems\<close> items: every descriptor it reaches is concrete; a
  dimension does not take the branch of line 87 (\<^verbatim>\<open>ndim\<close> is not 0 or it is not
  optional); a \<open>VarDim\<close> has an offset to read; and for a \<open>Tuple\<close> or \<open>Record\<close> the
  number of items is not negative and the number of children \<open>nitems * shape\<close> is
  representable.  Below a descriptor whose subtree flag is not set nothing is reached.
\<close>

fun build_defined :: "ndt \<Rightarrow> int64 \<Rightarrow> bool" where
  "build_defined (FixedDim h shape e) nitems =
     (concrete h \<and>
      (subtree_opt h \<longrightarrow> \<not> (ndim h = 0 \<and> opt h) \<and> build_defined e (nitems * shape)))"
| "build_defined (VarDim h offsets dtype) nitems =
     (concrete h \<and>
      (subtree_opt h \<longrightarrow>
         \<not> (ndim h = 0 \<and> opt h) \<and> offsets \<noteq> [] \<and> build_defined dtype (last offsets)))"
| "build_defined (Tuple h ts) nitems =
     (concrete h \<and>
      (subtree_opt h \<longrightarrow>
         0 \<le> sint nitems \<and> sint nitems * int (length ts) < 2 ^ 63 \<and>
         (\<forall>f \<in> set ts. build_defined f 1)))"
| "build_defined (Record h ts) nitems =
     (concrete h \<and>
      (subtree_opt h \<longrightarrow>
         0 \<le> sint nitems \<and> sint nitems * int (length ts) < 2 ^ 63 \<and>
         (\<forall>f \<in> set ts. build_defined f 1)))"
| "build_defined (Other h) nitems = concrete h"

text \<open>
  \<open>loop_ready b L N i k\<close>: the node has a child array of \<open>N * L\<close> nodes, is well
  formed, and the children from index \<open>i * L + k\<close> on are still empty.
\<close>

definition loop_ready :: "xnd_bitmap \<Rightarrow> nat \<Rightarrow> nat \<Rightarrow> nat \<Rightarrow> nat \<Rightarrow> bool" where
  "loop_ready b L N i k =
     (wf_bitmap b \<and> k \<le> L \<and>
      (\<exists>a cs. b_next b = Some (a, cs) \<and> length cs = N * L \<and>
         (\<forall>j. i * L + k \<le> j \<and> j < N * L \<longrightarrow> cs ! j = xnd_bitmap_empty)))"

subsection \<open>The children of a product, as the specification describes them\<close>

text \<open>
  Follows the specification, not the source: the nodes obtained by building, one after
  the other and each on an empty node with one item, the types of the given list;
  defined when each of these builds returns 0.  The theorems below compare the child
  array that \<^verbatim>\<open>bitmap_init\<close> leaves with it.
\<close>

fun build_each :: "ndt list \<Rightarrow> mem \<Rightarrow> (xnd_bitmap list \<times> mem) option" where
  "build_each [] s = Some ([], s)"
| "build_each (t # ts) s =
     (case bitmap_init xnd_bitmap_empty t 1 s of
        None \<Rightarrow> None
      | Some (rc, c, s1) \<Rightarrow>
          if rc = 0 then
            (case build_each ts s1 of
               None \<Rightarrow> None
             | Some (cs, s2) \<Rightarrow> Some (c # cs, s2))
          else None)"

subsection \<open>The states of a node\<close>



subsection \<open>Example inputs\<close>

text \<open>
  The descriptors of the scenarios of the specification: an optional scalar, a scalar
  that is not optional, \<open>3 * ?scalar\<close>, the tuple \<open>(?scalar, scalar)\<close>, the ragged
  dimension with offsets \<open>[0, 2, 5]\<close> over an optional scalar, and the optional tuple
  \<open>?(?scalar, scalar)\<close>.  \<open>mem0\<close> is a state with nothing allocated.
\<close>

definition opt_scalar :: ndt where
  "opt_scalar = Other \<lparr>concrete = True, ndim = 0, opt = True, subtree_opt = True\<rparr>"

definition plain_scalar :: ndt where
  "plain_scalar = Other \<lparr>concrete = True, ndim = 0, opt = False, subtree_opt = False\<rparr>"

definition fixed3_opt :: ndt where
  "fixed3_opt =
     FixedDim \<lparr>concrete = True, ndim = 1, opt = False, subtree_opt = True\<rparr> 3 opt_scalar"

definition var_opt :: ndt where
  "var_opt =
     VarDim \<lparr>concrete = True, ndim = 1, opt = False, subtree_opt = True\<rparr> [0, 2, 5] opt_scalar"

definition tuple_opt_plain :: ndt where
  "tuple_opt_plain =
     Tuple \<lparr>concrete = True, ndim = 0, opt = False, subtree_opt = True\<rparr>
       [opt_scalar, plain_scalar]"

definition opt_tuple :: ndt where
  "opt_tuple =
     Tuple \<lparr>concrete = True, ndim = 0, opt = True, subtree_opt = True\<rparr>
       [opt_scalar, plain_scalar]"

definition mem0 :: mem where
  "mem0 = \<lparr>heap = [], grants = [], err = None\<rparr>"

section \<open>Arithmetic of the byte and bit positions\<close>

lemma sint_plus7:
  fixes n :: int64
  assumes "0 \<le> sint n" "sint n \<le> 2 ^ 63 - 8"
  shows "sint (n + 7) = sint n + 7"
proof -
  have "sint (n + 7) = signed_take_bit 63 (sint n + 7)"
    by (simp add: sint_word_ariths)
  also have "\<dots> = sint n + 7"
    using assms by (intro signed_take_bit_int_eq_self) auto
  finally show ?thesis .
qed

lemma sdiv_nonneg:
  fixes k l :: int
  assumes "0 \<le> k" "0 < l"
  shows "k sdiv l = k div l"
  using assms by (simp add: signed_divide_int_def sgn_if)

lemma smod_nonneg:
  fixes k l :: int
  assumes "0 \<le> k" "0 < l"
  shows "k smod l = k mod l"
  using assms by (simp add: signed_modulo_int_def sgn_if)

lemma sint_c_div8:
  fixes n :: int64
  assumes "0 \<le> sint n"
  shows "sint (c_div n 8) = sint n div 8"
proof -
  have lt: "sint n < 2 ^ 63" using sint_lt [of n] by simp
  have "sint (c_div n 8) = signed_take_bit 63 (sint n div 8)"
    using assms by (simp add: c_div_def sdiv_nonneg sint_sbintrunc')
  also have "\<dots> = sint n div 8"
    using assms lt by (intro signed_take_bit_int_eq_self) auto
  finally show ?thesis .
qed

lemma sint_c_mod8:
  fixes n :: int64
  assumes "0 \<le> sint n"
  shows "sint (c_mod n 8) = sint n mod 8"
proof -
  have "sint (c_mod n 8) = signed_take_bit 63 (sint n mod 8)"
    using assms by (simp add: c_mod_def smod_nonneg sint_sbintrunc')
  also have "\<dots> = sint n mod 8"
    by (intro signed_take_bit_int_eq_self)
      (auto intro: order_trans [OF _ pos_mod_sign] less_trans [OF pos_mod_bound])
  finally show ?thesis .
qed

lemma bitmap_size_sint:
  fixes n :: int64
  assumes "0 \<le> sint n" "sint n \<le> 2 ^ 63 - 8"
  shows "sint (bitmap_size n) = (sint n + 7) div 8"
  using assms by (simp add: bitmap_size_def sint_c_div8 sint_plus7)

lemma ceil_div8: "\<lceil>real_of_int k / 8\<rceil> = (k + 7) div 8"
proof -
  have "\<lceil>real_of_int k / real_of_int 8\<rceil> = - (- k div 8)"
    by (rule ceiling_divide_eq_div)
  then show ?thesis by simp
qed

section \<open>The accessors on a buffer\<close>

lemma word_sle_sint0: "(0 \<le>s (n::int64)) = (0 \<le> sint n)"
  by (simp add: word_sle_eq)

lemma bit_mask_bit:
  fixes n :: int64
  assumes "0 \<le> sint n"
  shows "bit (bit_mask n) m = (m = nat (sint n mod 8))"
proof -
  have "nat (sint n mod 8) < 8" by simp
  then show ?thesis
    using assms by (auto simp: bit_mask_def sint_c_mod8 bit_simps)
qed

lemma and_mask_nonzero:
  fixes n :: int64 and w :: uint8
  assumes "0 \<le> sint n"
  shows "(w AND bit_mask n \<noteq> 0) = bit w (nat (sint n mod 8))"
proof -
  have k: "nat (sint n mod 8) < 8" by simp
  have "(w AND bit_mask n = 0) = (\<forall>m<8. \<not> bit (w AND bit_mask n) m)"
    by (simp add: bit_eq_iff [of "w AND bit_mask n" 0])
  then show ?thesis
    using assms k by (auto simp: bit_and_iff bit_mask_bit)
qed

lemma or_and_same_mask:
  fixes v :: uint8
  assumes "0 \<le> sint n"
  shows "(v OR bit_mask n) AND bit_mask n = bit_mask n"
  using assms by (intro bit_eqI) (auto simp: bit_and_iff bit_or_iff bit_mask_bit)

lemma or_and_other_mask:
  fixes v :: uint8
  assumes "0 \<le> sint i" "0 \<le> sint j" "sint i mod 8 \<noteq> sint j mod 8"
  shows "(v OR bit_mask i) AND bit_mask j = v AND bit_mask j"
proof (rule bit_eqI)
  fix m
  have "nat (sint i mod 8) \<noteq> nat (sint j mod 8)"
    using assms(3) by (simp add: nat_eq_iff)
  then show "bit ((v OR bit_mask i) AND bit_mask j) m = bit (v AND bit_mask j) m"
    using assms by (auto simp: bit_and_iff bit_or_iff bit_mask_bit)
qed

lemma or_and_keeps_set_bit:
  fixes v m :: uint8
  assumes "0 \<le> sint n" "v AND bit_mask n \<noteq> 0"
  shows "(v OR m) AND bit_mask n = v AND bit_mask n"
proof (rule bit_eqI)
  fix q
  have "bit v (nat (sint n mod 8))"
    using assms by (simp add: and_mask_nonzero)
  then show "bit ((v OR m) AND bit_mask n) q = bit (v AND bit_mask n) q"
    using assms(1) by (auto simp: bit_and_iff bit_or_iff bit_mask_bit)
qed

lemma load_byte_in_buffer:
  assumes "a < length (heap s)" "heap s ! a = Some (Bytes bs)" "0 \<le> i" "nat i < length bs"
  shows "load_byte s (Some a) i = Some (bs ! nat i)"
  using assms by (simp add: load_byte_def)

lemma store_byte_in_buffer:
  assumes "a < length (heap s)" "heap s ! a = Some (Bytes bs)" "0 \<le> i" "nat i < length bs"
  shows "store_byte s (Some a) i v = Some (s\<lparr>heap := (heap s)[a := Some (Bytes (bs[nat i := v]))]\<rparr>)"
  using assms by (simp add: store_byte_def)

lemma load_after_store:
  assumes "store_byte s p i v = Some s'"
  shows "load_byte s' q j =
    (if q = p \<and> j = i then Some v else load_byte s q j)"
proof -
  obtain a bs where p: "p = Some a" and a: "a < length (heap s)"
    and h: "heap s ! a = Some (Bytes bs)" and i: "0 \<le> i" "nat i < length bs"
    and s': "s' = s\<lparr>heap := (heap s)[a := Some (Bytes (bs[nat i := v]))]\<rparr>"
    using assms
    by (auto simp: store_byte_def split: option.splits if_splits block.splits)
  show ?thesis
  proof (cases q)
    case None
    then show ?thesis by (simp add: load_byte_def p)
  next
    case (Some c)
    show ?thesis
    proof (cases "c = a")
      case True
      then show ?thesis
        using Some p a h i s' by (auto simp: load_byte_def nat_eq_iff)
    next
      case False
      then show ?thesis
        using Some p a h i s' by (auto simp: load_byte_def split: option.splits block.splits)
    qed
  qed
qed

lemma set_valid_result:
  assumes "ndt_is_optional (x_type x)" "0 \<le> sint (x_index x)"
    and "load_byte s (b_data (x_bitmap x)) (sint (x_index x) div 8) = Some w"
  shows "xnd_set_valid x s =
    store_byte s (b_data (x_bitmap x)) (sint (x_index x) div 8) (w OR bit_mask (x_index x))"
  using assms by (simp add: xnd_set_valid_def word_sle_sint0 sint_c_div8 Let_def)

lemma static_is_valid_result:
  assumes "ndt_is_optional (x_type x)" "0 \<le> sint (x_index x)"
  shows "static_xnd_is_valid x s =
    map_option (\<lambda>w. uint (w AND bit_mask (x_index x)))
      (load_byte s (b_data (x_bitmap x)) (sint (x_index x) div 8))"
  using assms
  by (simp add: static_xnd_is_valid_def word_sle_sint0 sint_c_div8 Let_def split: option.splits)

lemma static_is_valid_negative:
  assumes "\<not> 0 \<le> sint (x_index x)"
  shows "static_xnd_is_valid x s = None"
  using assms by (simp add: static_xnd_is_valid_def word_sle_sint0 Let_def)

lemma set_valid_Some:
  assumes "xnd_set_valid y s = Some s'"
  obtains w where "ndt_is_optional (x_type y)" "0 \<le> sint (x_index y)"
    "load_byte s (b_data (x_bitmap y)) (sint (x_index y) div 8) = Some w"
    "store_byte s (b_data (x_bitmap y)) (sint (x_index y) div 8) (w OR bit_mask (x_index y)) = Some s'"
  using assms
  by (auto simp: xnd_set_valid_def word_sle_sint0 sint_c_div8 Let_def
      split: if_splits option.splits)

lemma set_valid_keeps_valid:
  assumes sv: "xnd_set_valid y s = Some s'"
    and v: "xnd_is_valid x s = Some v" "v \<noteq> 0"
  shows "xnd_is_valid x s' = Some v"
proof (cases "ndt_is_optional (x_type x)")
  case False
  then show ?thesis using v by (simp add: xnd_is_valid_def)
next
  case True
  from sv obtain w where y: "0 \<le> sint (x_index y)"
    and ld: "load_byte s (b_data (x_bitmap y)) (sint (x_index y) div 8) = Some w"
    and st: "store_byte s (b_data (x_bitmap y)) (sint (x_index y) div 8)
               (w OR bit_mask (x_index y)) = Some s'"
    by (rule set_valid_Some)
  have nn: "0 \<le> sint (x_index x)"
    using v True static_is_valid_negative [of x s] by (auto simp: xnd_is_valid_def)
  from v True nn obtain u where
    lx: "load_byte s (b_data (x_bitmap x)) (sint (x_index x) div 8) = Some u"
    and u: "v = uint (u AND bit_mask (x_index x))"
    by (auto simp: xnd_is_valid_def static_is_valid_result)
  have u0: "u AND bit_mask (x_index x) \<noteq> 0"
    using u v(2) by auto
  show ?thesis
  proof (cases "b_data (x_bitmap x) = b_data (x_bitmap y)
      \<and> sint (x_index x) div 8 = sint (x_index y) div 8")
    case same: True
    then have "u = w" using lx ld by simp
    then show ?thesis
      using True nn same u u0
      by (simp add: xnd_is_valid_def static_is_valid_result load_after_store [OF st]
          or_and_keeps_set_bit)
  next
    case False
    then show ?thesis
      using True nn lx u
      by (auto simp: xnd_is_valid_def static_is_valid_result load_after_store [OF st])
  qed
qed

section \<open>Claims about the accessors\<close>

text \<open>
  C7.  For a position whose type is optional, with a live buffer behind the node and a
  byte index inside it, \<^verbatim>\<open>xnd_is_na\<close> returns the C negation of what \<^verbatim>\<open>xnd_is_valid\<close>
  returns, and \<^verbatim>\<open>xnd_is_valid\<close> is non-zero exactly when bit \<open>index mod 8\<close> of byte
  \<open>index div 8\<close> is set.  For a position whose type is not optional, \<^verbatim>\<open>xnd_is_valid\<close>
  returns 1 and \<^verbatim>\<open>xnd_is_na\<close> returns 0 whatever the node and the memory are: no
  bitmap is read.
\<close>

theorem is_na_negates_is_valid:
  "(ndt_is_optional (x_type x) \<and> 0 \<le> sint (x_index x) \<and> b_data (x_bitmap x) = Some a \<and>
      a < length (heap s) \<and> heap s ! a = Some (Bytes bs) \<and>
      nat (sint (x_index x) div 8) < length bs \<longrightarrow>
      (\<exists>v. xnd_is_valid x s = Some v \<and> xnd_is_na x s = Some (if v = 0 then 1 else 0) \<and>
           (v \<noteq> 0) = bit (bs ! nat (sint (x_index x) div 8)) (nat (sint (x_index x) mod 8))))
   \<and> (\<not> ndt_is_optional (x_type x) \<longrightarrow> xnd_is_valid x s = Some 1 \<and> xnd_is_na x s = Some 0)"
proof (intro conjI impI)
  assume h: "ndt_is_optional (x_type x) \<and> 0 \<le> sint (x_index x) \<and> b_data (x_bitmap x) = Some a \<and>
      a < length (heap s) \<and> heap s ! a = Some (Bytes bs) \<and>
      nat (sint (x_index x) div 8) < length bs"
  then have ld: "load_byte s (b_data (x_bitmap x)) (sint (x_index x) div 8)
      = Some (bs ! nat (sint (x_index x) div 8))"
    by (simp add: load_byte_in_buffer pos_imp_zdiv_nonneg_iff)
  let ?w = "bs ! nat (sint (x_index x) div 8)"
  have v: "static_xnd_is_valid x s = Some (uint (?w AND bit_mask (x_index x)))"
    using h ld by (simp add: static_is_valid_result)
  have nz: "(uint (?w AND bit_mask (x_index x)) \<noteq> 0) = bit ?w (nat (sint (x_index x) mod 8))"
    using h and_mask_nonzero [of "x_index x" ?w] by (simp add: uint_0_iff)
  show "\<exists>v. xnd_is_valid x s = Some v \<and> xnd_is_na x s = Some (if v = 0 then 1 else 0) \<and>
           (v \<noteq> 0) = bit ?w (nat (sint (x_index x) mod 8))"
    using h v nz by (simp add: xnd_is_valid_def xnd_is_na_def c_not_def)
next
  assume "\<not> ndt_is_optional (x_type x)"
  then show "xnd_is_valid x s = Some 1" by (simp add: xnd_is_valid_def)
next
  assume "\<not> ndt_is_optional (x_type x)"
  then show "xnd_is_na x s = Some 0" by (simp add: xnd_is_na_def)
qed

theorem is_na_negates_is_valid_witness:
  "xnd_is_valid \<lparr>x_bitmap = Bitmap (Some 0) 0 None, x_index = 9, x_type = opt_scalar\<rparr>
       \<lparr>heap = [Some (Bytes [0, 2])], grants = [], err = None\<rparr> = Some 2
   \<and> xnd_is_na \<lparr>x_bitmap = Bitmap (Some 0) 0 None, x_index = 9, x_type = opt_scalar\<rparr>
       \<lparr>heap = [Some (Bytes [0, 2])], grants = [], err = None\<rparr> = Some 0
   \<and> xnd_is_valid \<lparr>x_bitmap = xnd_bitmap_empty, x_index = 9, x_type = plain_scalar\<rparr> mem0 = Some 1
   \<and> xnd_is_na \<lparr>x_bitmap = xnd_bitmap_empty, x_index = 9, x_type = plain_scalar\<rparr> mem0 = Some 0"
proof -
  let ?x = "\<lparr>x_bitmap = Bitmap (Some 0) 0 None, x_index = 9, x_type = opt_scalar\<rparr>"
  let ?s = "\<lparr>heap = [Some (Bytes [0, 2])], grants = [], err = None\<rparr>"
  let ?y = "\<lparr>x_bitmap = xnd_bitmap_empty, x_index = 9, x_type = plain_scalar\<rparr>"
  have opt: "ndt_is_optional opt_scalar" "\<not> ndt_is_optional plain_scalar"
    by (simp_all add: ndt_is_optional_def opt_scalar_def plain_scalar_def)
  have nine: "sint (9 :: int64) = 9" by simp
  from is_na_negates_is_valid [of ?x 0 ?s "[0, 2]"] opt nine
  obtain v where v: "xnd_is_valid ?x ?s = Some v"
      "xnd_is_na ?x ?s = Some (if v = 0 then 1 else 0)"
      "(v \<noteq> 0) = bit (2 :: uint8) (Suc 0)"
    by auto
  have "xnd_is_valid ?x ?s = Some 2"
    using opt by (simp add: xnd_is_valid_def static_is_valid_result load_byte_def bit_mask_def
        sint_c_mod8)
  with v have "xnd_is_na ?x ?s = Some 0" by simp
  moreover note \<open>xnd_is_valid ?x ?s = Some 2\<close>
  moreover have "xnd_is_valid ?y mem0 = Some 1 \<and> xnd_is_na ?y mem0 = Some 0"
    using is_na_negates_is_valid [of ?y 0 mem0 "[]"] opt by simp
  ultimately show ?thesis by simp
qed

text \<open>
  C8.  For an optional position with a live buffer behind the node and the byte
  \<open>index div 8\<close> inside it, \<^verbatim>\<open>xnd_set_valid\<close> returns; the new memory differs from the
  old one only in byte \<open>index div 8\<close> of that buffer, which is the old byte with bit
  \<open>index mod 8\<close> set; \<^verbatim>\<open>xnd_is_valid\<close> at the index is then non-zero, and at every
  other index of the same node it returns what it returned before.
\<close>

theorem set_valid_round_trip_frame:
  assumes "ndt_is_optional (x_type x)" and "0 \<le> sint (x_index x)"
    and "b_data (x_bitmap x) = Some a" and "a < length (heap s)"
    and "heap s ! a = Some (Bytes bs)" and "nat (sint (x_index x) div 8) < length bs"
  shows "\<exists>s'. xnd_set_valid x s = Some s'
      \<and> s' = s\<lparr>heap := (heap s)[a := Some (Bytes (bs[nat (sint (x_index x) div 8) :=
                 bs ! nat (sint (x_index x) div 8) OR push_bit (nat (sint (x_index x) mod 8)) 1]))]\<rparr>
      \<and> (\<exists>v. xnd_is_valid x s' = Some v \<and> v \<noteq> 0)
      \<and> (\<forall>j. j \<noteq> x_index x \<longrightarrow>
             xnd_is_valid (x\<lparr>x_index := j\<rparr>) s' = xnd_is_valid (x\<lparr>x_index := j\<rparr>) s)"
proof -
  let ?i = "x_index x"
  let ?q = "sint ?i div 8"
  let ?w = "bs ! nat ?q"
  have q0: "0 \<le> ?q" using assms(2) by (simp add: pos_imp_zdiv_nonneg_iff)
  have ld: "load_byte s (b_data (x_bitmap x)) ?q = Some ?w"
    using assms q0 by (simp add: load_byte_in_buffer)
  define s' where "s' = s\<lparr>heap := (heap s)[a := Some (Bytes (bs[nat ?q := ?w OR bit_mask ?i]))]\<rparr>"
  have st: "store_byte s (b_data (x_bitmap x)) ?q (?w OR bit_mask ?i) = Some s'"
    using assms q0 by (simp add: store_byte_in_buffer s'_def)
  have sv: "xnd_set_valid x s = Some s'"
    using assms(1,2) ld st by (simp add: set_valid_result)
  have mask: "bit_mask ?i = push_bit (nat (sint ?i mod 8)) 1"
    using assms(2) by (simp add: bit_mask_def sint_c_mod8)
  have valid: "xnd_is_valid x s' = Some (uint (bit_mask ?i))"
    using assms(1,2)
    by (simp add: xnd_is_valid_def static_is_valid_result load_after_store [OF st]
        or_and_same_mask)
  have nz: "uint (bit_mask ?i) \<noteq> 0"
    using bit_mask_bit [OF assms(2), of "nat (sint ?i mod 8)"] by (auto simp: uint_0_iff)
  have frame: "xnd_is_valid (x\<lparr>x_index := j\<rparr>) s' = xnd_is_valid (x\<lparr>x_index := j\<rparr>) s"
    if ne: "j \<noteq> ?i" for j
  proof (cases "0 \<le> sint j")
    case False
    then show ?thesis
      by (simp add: xnd_is_valid_def static_is_valid_negative)
  next
    case True
    have sne: "sint j \<noteq> sint ?i" using ne by (auto dest: signed_word_eqI)
    show ?thesis
    proof (cases "sint j div 8 = ?q")
      case False
      then show ?thesis
        using True assms(1)
        by (simp add: xnd_is_valid_def static_is_valid_result load_after_store [OF st])
    next
      case same: True
      have "sint j mod 8 \<noteq> sint ?i mod 8"
      proof
        assume "sint j mod 8 = sint ?i mod 8"
        then have "sint j = sint ?i"
          using same by (metis mult_div_mod_eq)
        with sne show False by simp
      qed
      then have "(?w OR bit_mask ?i) AND bit_mask j = ?w AND bit_mask j"
        using True assms(2) by (simp add: or_and_other_mask)
      then show ?thesis
        using True assms(1) same ld
        by (simp add: xnd_is_valid_def static_is_valid_result load_after_store [OF st])
    qed
  qed
  show ?thesis
    using sv valid nz frame unfolding s'_def mask by blast
qed

theorem set_valid_round_trip_frame_witness:
  "xnd_set_valid \<lparr>x_bitmap = Bitmap (Some 0) 0 None, x_index = 1, x_type = opt_scalar\<rparr>
       \<lparr>heap = [Some (Bytes [0])], grants = [], err = None\<rparr>
     = Some \<lparr>heap = [Some (Bytes [2])], grants = [], err = None\<rparr>
   \<and> xnd_is_valid \<lparr>x_bitmap = Bitmap (Some 0) 0 None, x_index = 1, x_type = opt_scalar\<rparr>
       \<lparr>heap = [Some (Bytes [2])], grants = [], err = None\<rparr> = Some 2
   \<and> xnd_is_valid \<lparr>x_bitmap = Bitmap (Some 0) 0 None, x_index = 0, x_type = opt_scalar\<rparr>
       \<lparr>heap = [Some (Bytes [2])], grants = [], err = None\<rparr> = Some 0
   \<and> xnd_is_valid \<lparr>x_bitmap = Bitmap (Some 0) 0 None, x_index = 2, x_type = opt_scalar\<rparr>
       \<lparr>heap = [Some (Bytes [2])], grants = [], err = None\<rparr> = Some 0"
proof -
  let ?x = "\<lparr>x_bitmap = Bitmap (Some 0) 0 None, x_index = 1, x_type = opt_scalar\<rparr>"
  let ?s = "\<lparr>heap = [Some (Bytes [0])], grants = [], err = None\<rparr>"
  let ?s' = "\<lparr>heap = [Some (Bytes [2])], grants = [], err = None\<rparr>"
  have opt: "ndt_is_optional opt_scalar"
    by (simp add: ndt_is_optional_def opt_scalar_def)
  have one: "sint (1 :: int64) = 1" "sint (0 :: int64) = 0" "sint (2 :: int64) = 2" by simp_all
  from set_valid_round_trip_frame [of ?x 0 ?s "[0]"] opt
  have sv: "xnd_set_valid ?x ?s = Some ?s'"
    and fr: "\<forall>j. j \<noteq> 1 \<longrightarrow> xnd_is_valid (?x\<lparr>x_index := j\<rparr>) ?s' = xnd_is_valid (?x\<lparr>x_index := j\<rparr>) ?s"
    by auto
  have v1: "xnd_is_valid ?x ?s' = Some 2"
    using opt by (simp add: xnd_is_valid_def static_is_valid_result load_byte_def bit_mask_def
        sint_c_mod8)
  have v0: "xnd_is_valid (?x\<lparr>x_index := 0\<rparr>) ?s = Some 0"
    using opt by (simp add: xnd_is_valid_def static_is_valid_result load_byte_def)
  have v2: "xnd_is_valid (?x\<lparr>x_index := 2\<rparr>) ?s = Some 0"
    using opt by (simp add: xnd_is_valid_def static_is_valid_result load_byte_def)
  from fr v0 have "xnd_is_valid (?x\<lparr>x_index := 0\<rparr>) ?s' = Some 0" by simp
  moreover from fr v2 have "xnd_is_valid (?x\<lparr>x_index := 2\<rparr>) ?s' = Some 0" by simp
  ultimately show ?thesis using sv v1 by simp
qed

text \<open>
  C10.  A validity bit that is set stays set: if \<^verbatim>\<open>xnd_is_valid\<close> returns a non-zero
  value at a position, it returns the same value after any run of \<^verbatim>\<open>xnd_set_valid\<close>
  calls, at any positions, that return.
\<close>

theorem validity_is_monotone:
  assumes "set_valid_seq ys s = Some s'"
    and "xnd_is_valid x s = Some v" and "v \<noteq> 0"
  shows "xnd_is_valid x s' = Some v"
  using assms
proof (induction ys arbitrary: s)
  case Nil
  then show ?case by simp
next
  case (Cons y ys)
  from Cons.prems(1) obtain s1 where
    y: "xnd_set_valid y s = Some s1" and rest: "set_valid_seq ys s1 = Some s'"
    by (auto split: option.splits)
  have "xnd_is_valid x s1 = Some v"
    using y Cons.prems(2,3) by (rule set_valid_keeps_valid)
  then show ?case
    using Cons.IH rest Cons.prems(3) by blast
qed

theorem validity_is_monotone_witness:
  "set_valid_seq
      [\<lparr>x_bitmap = Bitmap (Some 0) 0 None, x_index = 0, x_type = opt_scalar\<rparr>,
       \<lparr>x_bitmap = Bitmap (Some 0) 0 None, x_index = 1, x_type = opt_scalar\<rparr>]
      \<lparr>heap = [Some (Bytes [2])], grants = [], err = None\<rparr>
     = Some \<lparr>heap = [Some (Bytes [3])], grants = [], err = None\<rparr>
   \<and> xnd_is_valid \<lparr>x_bitmap = Bitmap (Some 0) 0 None, x_index = 1, x_type = opt_scalar\<rparr>
       \<lparr>heap = [Some (Bytes [2])], grants = [], err = None\<rparr> = Some 2
   \<and> xnd_is_valid \<lparr>x_bitmap = Bitmap (Some 0) 0 None, x_index = 1, x_type = opt_scalar\<rparr>
       \<lparr>heap = [Some (Bytes [3])], grants = [], err = None\<rparr> = Some 2"
proof -
  let ?x0 = "\<lparr>x_bitmap = Bitmap (Some 0) 0 None, x_index = 0, x_type = opt_scalar\<rparr>"
  let ?x1 = "\<lparr>x_bitmap = Bitmap (Some 0) 0 None, x_index = 1, x_type = opt_scalar\<rparr>"
  let ?s = "\<lparr>heap = [Some (Bytes [2])], grants = [], err = None\<rparr>"
  let ?s' = "\<lparr>heap = [Some (Bytes [3])], grants = [], err = None\<rparr>"
  have opt: "ndt_is_optional opt_scalar"
    by (simp add: ndt_is_optional_def opt_scalar_def)
  have seq: "set_valid_seq [?x0, ?x1] ?s = Some ?s'"
    using opt
    by (simp add: xnd_set_valid_def Let_def word_sle_sint0 sint_c_div8 load_byte_def
        store_byte_def bit_mask_def sint_c_mod8)
  have v: "xnd_is_valid ?x1 ?s = Some 2"
    using opt by (simp add: xnd_is_valid_def static_is_valid_result load_byte_def bit_mask_def
        sint_c_mod8)
  have "xnd_is_valid ?x1 ?s' = Some 2"
    using validity_is_monotone [OF seq v] by simp
  with seq v show ?thesis by simp
qed

section \<open>Claims about allocation\<close>

lemma bits_new_granted:
  assumes "bits_new n s = (Some a, s')"
  shows "a = length (heap s) \<and> heap s' = heap s @ [Some (Bytes (replicate (unat (bitmap_size n)) 0))]
     \<and> err s' = err s"
  using assms
  by (auto simp: bits_new_def ndt_calloc_def ndt_memory_error_def
      split: list.splits if_splits)

lemma unat_bitmap_size:
  fixes n :: int64
  assumes "0 \<le> sint n" "sint n \<le> 2 ^ 63 - 8"
  shows "unat (bitmap_size n) = nat ((sint n + 7) div 8)"
proof -
  let ?k = "(sint n + 7) div 8"
  have k: "0 \<le> ?k" "?k < 2 ^ 64"
    using assms by (simp_all add: pos_imp_zdiv_nonneg_iff)
  have "bitmap_size n = word_of_int ?k"
    using assms by (simp add: bitmap_size_def c_div_def sint_plus7 sdiv_nonneg)
  then have "uint (bitmap_size n) = take_bit 64 ?k"
    by (simp add: uint_word_of_int_eq)
  also have "\<dots> = ?k"
    using k by (intro take_bit_int_eq_self) auto
  finally show ?thesis by (simp add: unat_eq_nat_uint)
qed

text \<open>
  C9 (as amended).  For an element count \<open>n\<close> with \<open>0 \<le> n \<le> INT64_MAX - 7\<close>,
  \<^verbatim>\<open>bitmap_size\<close> returns \<open>ceil (n / 8)\<close>; a request to \<^verbatim>\<open>bits_new\<close> is granted exactly
  when the allocator grants it; and a buffer that \<^verbatim>\<open>bits_new\<close> returns is a new block of
  \<open>ceil (n / 8)\<close> zero bytes, so that each of the \<open>n\<close> elements reads as not valid
  (\<^verbatim>\<open>xnd_is_valid\<close> 0, \<^verbatim>\<open>xnd_is_na\<close> 1).
\<close>

theorem byte_count_and_zero_fill:
  fixes n :: int64
  assumes "0 \<le> sint n" and "sint n \<le> 2 ^ 63 - 8"
  shows "sint (bitmap_size n) = \<lceil>real_of_int (sint n) / 8\<rceil>
     \<and> ((\<exists>a s'. bits_new n s = (Some a, s')) = (grants s = [] \<or> hd (grants s)))
     \<and> (\<forall>a s'. bits_new n s = (Some a, s') \<longrightarrow>
           a = length (heap s) \<and>
           heap s' = heap s @ [Some (Bytes (replicate (nat \<lceil>real_of_int (sint n) / 8\<rceil>) 0))] \<and>
           (\<forall>x. ndt_is_optional (x_type x) \<and> b_data (x_bitmap x) = Some a \<and>
                 0 \<le> sint (x_index x) \<and> sint (x_index x) < sint n \<longrightarrow>
                 xnd_is_valid x s' = Some 0 \<and> xnd_is_na x s' = Some 1))"
proof -
  have size: "sint (bitmap_size n) = \<lceil>real_of_int (sint n) / 8\<rceil>"
    using bitmap_size_sint [OF assms] ceil_div8 [of "sint n"] by simp
  have granted: "(\<exists>a s'. bits_new n s = (Some a, s')) = (grants s = [] \<or> hd (grants s))"
    using unsigned_less [of "bitmap_size n", where 'a = nat]
    by (auto simp: bits_new_def ndt_calloc_def split: list.splits)
  have len: "nat \<lceil>real_of_int (sint n) / 8\<rceil> = unat (bitmap_size n)"
    using unat_bitmap_size [OF assms] ceil_div8 [of "sint n"] by simp
  have fresh: "a = length (heap s) \<and>
      heap s' = heap s @ [Some (Bytes (replicate (nat \<lceil>real_of_int (sint n) / 8\<rceil>) 0))] \<and>
      (\<forall>x. ndt_is_optional (x_type x) \<and> b_data (x_bitmap x) = Some a \<and>
            0 \<le> sint (x_index x) \<and> sint (x_index x) < sint n \<longrightarrow>
            xnd_is_valid x s' = Some 0 \<and> xnd_is_na x s' = Some 1)"
    if b: "bits_new n s = (Some a, s')" for a s'
  proof -
    let ?bs = "replicate (nat ((sint n + 7) div 8)) (0 :: uint8)"
    have a: "a = length (heap s)" and h: "heap s' = heap s @ [Some (Bytes ?bs)]"
      using b assms by (simp_all add: bits_new_granted unat_bitmap_size)
    have na: "xnd_is_valid x s' = Some 0 \<and> xnd_is_na x s' = Some 1"
      if x: "ndt_is_optional (x_type x) \<and> b_data (x_bitmap x) = Some a \<and>
        0 \<le> sint (x_index x) \<and> sint (x_index x) < sint n" for x :: xnd_t
    proof -
      have q: "0 \<le> sint (x_index x) div 8" "nat (sint (x_index x) div 8) < length ?bs"
        using x by (simp_all add: pos_imp_zdiv_nonneg_iff) linarith
      have "load_byte s' (b_data (x_bitmap x)) (sint (x_index x) div 8) = Some 0"
        using x a h q by (simp add: load_byte_def)
      then have "static_xnd_is_valid x s' = Some 0"
        using x by (simp add: static_is_valid_result)
      then show ?thesis
        using x by (simp add: xnd_is_valid_def xnd_is_na_def c_not_def)
    qed
    show ?thesis
      using a h na unat_bitmap_size [OF assms] len by simp
  qed
  show ?thesis
    using size granted fresh by blast
qed

theorem byte_count_and_zero_fill_witness:
  "sint (bitmap_size 9) = 2
   \<and> bits_new 9 mem0 = (Some 0, \<lparr>heap = [Some (Bytes [0, 0])], grants = [], err = None\<rparr>)
   \<and> xnd_is_na \<lparr>x_bitmap = Bitmap (Some 0) 0 None, x_index = 8, x_type = opt_scalar\<rparr>
        \<lparr>heap = [Some (Bytes [0, 0])], grants = [], err = None\<rparr> = Some 1"
proof -
  let ?s' = "\<lparr>heap = [Some (Bytes [0, 0])], grants = [], err = None\<rparr>"
  let ?x = "\<lparr>x_bitmap = Bitmap (Some 0) 0 None, x_index = 8, x_type = opt_scalar\<rparr>"
  have opt: "ndt_is_optional opt_scalar"
    by (simp add: ndt_is_optional_def opt_scalar_def)
  have n: "sint (9 :: int64) = 9" "sint (8 :: int64) = 8" by simp_all
  have c: "\<lceil>real_of_int 9 / 8\<rceil> = 2" by (simp add: ceil_div8)
  have "unat (bitmap_size 9) = Suc (Suc 0)"
    using unat_bitmap_size [of 9] by simp
  then have b: "bits_new 9 mem0 = (Some 0, ?s')"
    by (simp add: bits_new_def ndt_calloc_def mem0_def)
  from byte_count_and_zero_fill [of 9 mem0] n c b opt
  have "sint (bitmap_size 9) = 2" and "xnd_is_na ?x ?s' = Some 1"
    by auto
  with b show ?thesis by simp
qed

text \<open>
  The claim as stated, for every count \<open>n \<ge> 0\<close>, fails at \<open>n = INT64_MAX\<close>: \<open>n + 7\<close>
  leaves the range of \<^verbatim>\<open>int64_t\<close>.
\<close>

theorem byte_count_counterexample:
  "0 \<le> sint (0x7FFFFFFFFFFFFFFF :: int64)
   \<and> sint (bitmap_size 0x7FFFFFFFFFFFFFFF) = - 1152921504606846975
   \<and> \<lceil>real_of_int (sint (0x7FFFFFFFFFFFFFFF :: int64)) / 8\<rceil> = 1152921504606846976"
  by (simp add: bitmap_size_def c_div_def signed_divide_int_def ceil_div8)

section \<open>Claims about the builder: the branches without children\<close>

lemma unat_lt_2p64: "unat (w :: int64) < 2 ^ 64"
  using unsigned_less [of w, where 'a = nat] by simp

lemma bitmap_init_asserts:
  assumes "\<not> ndt_is_concrete t \<or> b \<noteq> xnd_bitmap_empty"
  shows "bitmap_init b t nitems s = None"
proof -
  have "b_data b \<noteq> None \<or> b_size b \<noteq> 0 \<or> b_next b \<noteq> None" if "b \<noteq> xnd_bitmap_empty"
    using that by (cases b) (auto simp: xnd_bitmap_empty_def)
  then show ?thesis
    using assms by (subst bitmap_init.simps) auto
qed

text \<open>
  C4.  For a concrete \<open>FixedDim\<close> descriptor with the subtree flag set, which as a
  dimension has \<^verbatim>\<open>ndim\<close> different from 0, \<^verbatim>\<open>bitmap_init\<close> on a node is \<^verbatim>\<open>bitmap_init\<close>
  on the same node for the element type with \<open>nitems * shape\<close> items (the product of
  \<^verbatim>\<open>int64_t\<close>): the dimension adds no buffer and no child.  For a concrete \<open>VarDim\<close>
  descriptor with the subtree flag set it is \<^verbatim>\<open>bitmap_init\<close> on the same node for the
  type \<^verbatim>\<open>ndt_dtype\<close> returns, with the last entry of the offsets as the number of items.
\<close>

theorem dimension_delegation:
  "(concrete h \<and> subtree_opt h \<and> ndim h \<noteq> 0 \<longrightarrow>
      bitmap_init b (FixedDim h shape e) nitems s = bitmap_init b e (nitems * shape) s)
   \<and> (concrete h \<and> subtree_opt h \<and> ndim h \<noteq> 0 \<and> offsets \<noteq> [] \<longrightarrow>
      bitmap_init b (VarDim h offsets dtype) nitems s = bitmap_init b dtype (last offsets) s)"
proof (intro conjI impI)
  assume h: "concrete h \<and> subtree_opt h \<and> ndim h \<noteq> 0"
  show "bitmap_init b (FixedDim h shape e) nitems s = bitmap_init b e (nitems * shape) s"
  proof (cases "b = xnd_bitmap_empty")
    case False
    then show ?thesis by (simp add: bitmap_init_asserts)
  next
    case True
    then show ?thesis
      using h
      by (subst bitmap_init.simps)
        (simp add: xnd_bitmap_empty_def ndt_is_concrete_def t_ndim_def
          ndt_subtree_is_optional_def)
  qed
next
  assume h: "concrete h \<and> subtree_opt h \<and> ndim h \<noteq> 0 \<and> offsets \<noteq> []"
  show "bitmap_init b (VarDim h offsets dtype) nitems s = bitmap_init b dtype (last offsets) s"
  proof (cases "b = xnd_bitmap_empty")
    case False
    then show ?thesis by (simp add: bitmap_init_asserts)
  next
    case True
    then show ?thesis
      using h
      by (subst bitmap_init.simps)
        (simp add: xnd_bitmap_empty_def ndt_is_concrete_def t_ndim_def
          ndt_subtree_is_optional_def)
  qed
qed

lemma bitmap_init_opt_scalar:
  "bitmap_init xnd_bitmap_empty opt_scalar n mem0 =
     Some (0, Bitmap (Some 0) 0 None,
           \<lparr>heap = [Some (Bytes (replicate (unat (bitmap_size n)) 0))], grants = [], err = None\<rparr>)"
  using unat_lt_2p64 [of "bitmap_size n"]
  by (subst bitmap_init.simps)
    (simp add: xnd_bitmap_empty_def opt_scalar_def ndt_is_concrete_def t_ndim_def
      ndt_is_optional_def ndt_subtree_is_optional_def bits_new_def ndt_calloc_def mem0_def)

theorem dimension_delegation_witness:
  "bitmap_init xnd_bitmap_empty fixed3_opt 1 mem0 =
     Some (0, Bitmap (Some 0) 0 None, \<lparr>heap = [Some (Bytes [0])], grants = [], err = None\<rparr>)
   \<and> bitmap_init xnd_bitmap_empty opt_scalar 3 mem0 =
     Some (0, Bitmap (Some 0) 0 None, \<lparr>heap = [Some (Bytes [0])], grants = [], err = None\<rparr>)
   \<and> bitmap_init xnd_bitmap_empty var_opt 1 mem0 =
     Some (0, Bitmap (Some 0) 0 None, \<lparr>heap = [Some (Bytes [0])], grants = [], err = None\<rparr>)
   \<and> bitmap_init xnd_bitmap_empty opt_scalar 5 mem0 =
     Some (0, Bitmap (Some 0) 0 None, \<lparr>heap = [Some (Bytes [0])], grants = [], err = None\<rparr>)"
proof -
  let ?h = "\<lparr>concrete = True, ndim = 1, opt = False, subtree_opt = True\<rparr>"
  have u: "unat (bitmap_size 3) = Suc 0" "unat (bitmap_size 5) = Suc 0"
    using unat_bitmap_size [of 3] unat_bitmap_size [of 5] by simp_all
  have three: "bitmap_init xnd_bitmap_empty opt_scalar 3 mem0 =
     Some (0, Bitmap (Some 0) 0 None, \<lparr>heap = [Some (Bytes [0])], grants = [], err = None\<rparr>)"
    by (simp add: bitmap_init_opt_scalar u)
  have five: "bitmap_init xnd_bitmap_empty opt_scalar 5 mem0 =
     Some (0, Bitmap (Some 0) 0 None, \<lparr>heap = [Some (Bytes [0])], grants = [], err = None\<rparr>)"
    by (simp add: bitmap_init_opt_scalar u)
  have "bitmap_init xnd_bitmap_empty fixed3_opt 1 mem0
      = bitmap_init xnd_bitmap_empty opt_scalar 3 mem0"
    using dimension_delegation [of ?h xnd_bitmap_empty 3 opt_scalar 1 mem0]
    by (simp add: fixed3_opt_def)
  moreover have "bitmap_init xnd_bitmap_empty var_opt 1 mem0
      = bitmap_init xnd_bitmap_empty opt_scalar 5 mem0"
    using dimension_delegation [of ?h xnd_bitmap_empty 3 opt_scalar 1 mem0 "[0, 2, 5]" opt_scalar]
    by (simp add: var_opt_def)
  ultimately show ?thesis using three five by simp
qed

text \<open>
  C6.  For a concrete descriptor whose subtree flag is not set, and which is then not
  optional itself (the flag covers the node it stands on), \<^verbatim>\<open>bitmap_init\<close> on an empty
  node returns 0, for every number of items; the node is still empty and the state is
  the one before the call: no request reached the allocator.
\<close>

theorem no_optional_no_storage:
  assumes "ndt_is_concrete t" and "\<not> ndt_subtree_is_optional t"
    and "ndt_is_optional t \<longrightarrow> ndt_subtree_is_optional t"
  shows "bitmap_init xnd_bitmap_empty t nitems s = Some (0, xnd_bitmap_empty, s)"
  using assms by (subst bitmap_init.simps) (auto simp: xnd_bitmap_empty_def)

theorem no_optional_no_storage_witness:
  "ndt_is_concrete plain_scalar \<and> \<not> ndt_subtree_is_optional plain_scalar
   \<and> \<not> ndt_is_optional plain_scalar
   \<and> bitmap_init xnd_bitmap_empty plain_scalar 7 mem0 = Some (0, xnd_bitmap_empty, mem0)"
proof -
  have p: "ndt_is_concrete plain_scalar" "\<not> ndt_subtree_is_optional plain_scalar"
    "\<not> ndt_is_optional plain_scalar"
    by (simp_all add: plain_scalar_def ndt_is_concrete_def ndt_subtree_is_optional_def
        ndt_is_optional_def)
  then show ?thesis
    using no_optional_no_storage [of plain_scalar 7 mem0] by simp
qed

section \<open>The destructor releases what the node owns\<close>

lemma length_release [simp]: "length (release A h) = length h"
  by (simp add: release_def)

lemma nth_release [simp]:
  "i < length h \<Longrightarrow> release A h ! i = (if i \<in> A then None else h ! i)"
  by (simp add: release_def)

lemma release_empty [simp]: "release {} h = h"
  by (rule nth_equalityI) simp_all

lemma release_release: "release A (release B h) = release (A \<union> B) h"
  by (rule nth_equalityI) simp_all

lemma update_None_release: "h[a := None] = release {a} h"
  by (rule nth_equalityI) (simp_all add: nth_list_update)

lemma set_data_list [simp]: "set (case d of None \<Rightarrow> [] | Some a \<Rightarrow> [a]) = set_option d"
  by (cases d) simp_all

lemma set_addr_list [simp]: "set (addr_list b) = addrs b"
  by (induction b rule: addr_list.induct) (auto split: option.splits)

lemma ndt_free_live:
  assumes "\<forall>a \<in> set_option p. a < length (heap s) \<and> heap s ! a \<noteq> None"
  shows "\<exists>s'. ndt_free p s = Some s' \<and> heap s' = release (set_option p) (heap s) \<and>
           grants s' = grants s \<and> err s' = err s"
  using assms by (cases p) (simp_all add: ndt_free_def update_None_release)

lemma holdsI:
  assumes "distinct (addr_list b)"
    "\<And>a. a \<in> addrs b \<Longrightarrow> a < length (heap s) \<and> heap s ! a \<noteq> None"
  shows "holds b s"
  using assms unfolding holds_def by blast

lemma holdsE:
  assumes "holds b s"
  obtains "distinct (addr_list b)"
    "\<And>a. a \<in> addrs b \<Longrightarrow> a < length (heap s) \<and> heap s ! a \<noteq> None"
  using assms unfolding holds_def by blast

text \<open>
  On a well-formed node whose blocks are live and held once, the destructor returns
  and frees exactly these blocks.
\<close>

lemma clear_releases:
  "wf_bitmap b \<Longrightarrow> distinct (addr_list b) \<Longrightarrow>
   (\<forall>a \<in> addrs b. a < length (heap s) \<and> heap s ! a \<noteq> None) \<Longrightarrow>
     \<exists>s'. xnd_bitmap_clear b s = Some (Bitmap None (b_size b) None, s') \<and>
          heap s' = release (addrs b) (heap s) \<and> grants s' = grants s \<and> err s' = err s"
  "(\<forall>c \<in> set cs. wf_bitmap c) \<Longrightarrow> k \<le> length cs \<Longrightarrow>
   distinct (concat (map addr_list cs)) \<Longrightarrow>
   (\<forall>c \<in> set cs. \<forall>a \<in> addrs c. a < length (heap s) \<and> heap s ! a \<noteq> None) \<Longrightarrow>
     \<exists>cs' s'. clear_array k cs s = Some (cs', s') \<and>
          heap s' = release (\<Union>c \<in> set (take k cs). addrs c) (heap s) \<and>
          grants s' = grants s \<and> err s' = err s"
proof (induction b s and k cs s rule: xnd_bitmap_clear_clear_array.induct)
  case (1 d n nx s)
  note wf = "1.prems"(1) and dist = "1.prems"(2) and live = "1.prems"(3)
  have "\<forall>a \<in> set_option d. a < length (heap s) \<and> heap s ! a \<noteq> None"
    using live by simp
  from ndt_free_live [OF this] obtain s1 where f1: "ndt_free d s = Some s1"
    and h1: "heap s1 = release (set_option d) (heap s)"
    and g1: "grants s1 = grants s" "err s1 = err s"
    by blast
  show ?case
  proof (cases nx)
    case None
    then show ?thesis using f1 h1 g1 by simp
  next
    case (Some p)
    obtain a cs where p: "p = (a, cs)" by (cases p)
    let ?U = "\<Union>c \<in> set cs. addrs c"
    from wf Some p have wfs: "\<forall>c \<in> set cs. wf_bitmap c" and len: "nat (sint n) = length cs"
      by simp_all
    from dist Some p have dcs: "distinct (concat (map addr_list cs))"
      and a1: "a \<notin> set_option d" and a2: "a \<notin> ?U" and dU: "set_option d \<inter> ?U = {}"
      by auto
    from live Some p have la: "a < length (heap s)" "heap s ! a \<noteq> None"
      and lU: "\<And>x. x \<in> ?U \<Longrightarrow> x < length (heap s) \<and> heap s ! x \<noteq> None"
      by auto
    have live1: "\<forall>c \<in> set cs. \<forall>x \<in> addrs c. x < length (heap s1) \<and> heap s1 ! x \<noteq> None"
    proof (intro ballI)
      fix c x
      assume "c \<in> set cs" "x \<in> addrs c"
      then have x: "x \<in> ?U" by blast
      with dU have "x \<notin> set_option d" by blast
      with lU [OF x] show "x < length (heap s1) \<and> heap s1 ! x \<noteq> None"
        unfolding h1 by simp
    qed
    have k: "nat (sint n) \<le> length cs" using len by simp
    from "1.IH" [OF f1 Some p [symmetric] wfs k dcs live1] len
    obtain cs' s2 where c: "clear_array (nat (sint n)) cs s1 = Some (cs', s2)"
      and h2: "heap s2 = release ?U (heap s1)"
      and g2: "grants s2 = grants s1" "err s2 = err s1"
      by auto
    have "\<forall>x \<in> set_option (Some a). x < length (heap s2) \<and> heap s2 ! x \<noteq> None"
      unfolding h2 h1 using la a1 a2 by simp
    from ndt_free_live [OF this] obtain s3 where f3: "ndt_free (Some a) s2 = Some s3"
      and h3: "heap s3 = release {a} (heap s2)"
      and g3: "grants s3 = grants s2" "err s3 = err s2"
      by auto
    have "heap s3 = release (addrs (Bitmap d n nx)) (heap s)"
      unfolding h3 h2 h1 using Some p by (simp add: release_release Un_ac)
    then show ?thesis
      using Some p f1 c f3 g1 g2 g3 by simp
  qed
next
  case (2 cs s)
  then show ?case by simp
next
  case (3 k s)
  then show ?case by simp
next
  case (4 k c cs s)
  let ?U = "\<Union>c \<in> set cs. addrs c"
  from "4.prems" have wfc: "wf_bitmap c" and wfs: "\<forall>c \<in> set cs. wf_bitmap c"
    and k: "k \<le> length cs"
    and dc: "distinct (addr_list c)" and dcs: "distinct (concat (map addr_list cs))"
    and dj: "addrs c \<inter> ?U = {}"
    and lc: "\<forall>a \<in> addrs c. a < length (heap s) \<and> heap s ! a \<noteq> None"
    and ls: "\<And>x. x \<in> ?U \<Longrightarrow> x < length (heap s) \<and> heap s ! x \<noteq> None"
    by auto
  from "4.IH"(1) [OF wfc dc lc] obtain s1 where
    c: "xnd_bitmap_clear c s = Some (Bitmap None (b_size c) None, s1)"
    and h1: "heap s1 = release (addrs c) (heap s)" and g1: "grants s1 = grants s" "err s1 = err s"
    by auto
  have live1: "\<forall>c' \<in> set cs. \<forall>x \<in> addrs c'. x < length (heap s1) \<and> heap s1 ! x \<noteq> None"
  proof (intro ballI)
    fix c' x
    assume "c' \<in> set cs" "x \<in> addrs c'"
    then have x: "x \<in> ?U" by blast
    with dj have "x \<notin> addrs c" by blast
    with ls [OF x] show "x < length (heap s1) \<and> heap s1 ! x \<noteq> None"
      unfolding h1 by simp
  qed
  from "4.IH"(2) [OF c [THEN sym, THEN sym] refl wfs k dcs live1] obtain cs' s2 where
    r: "clear_array k cs s1 = Some (cs', s2)"
    and h2: "heap s2 = release (\<Union>c \<in> set (take k cs). addrs c) (heap s1)"
    and g2: "grants s2 = grants s1" "err s2 = err s1"
    by auto
  show ?case
    using c r h1 h2 g1 g2 by (simp add: release_release Un_ac)
qed

text \<open>A node without a buffer and without a child array is left as it is.\<close>

lemma clear_no_storage:
  assumes "b_data b = None" "b_next b = None"
  shows "xnd_bitmap_clear b s = Some (b, s)"
  using assms by (cases b) (simp add: ndt_free_def)

lemma clear_holds:
  assumes "wf_bitmap b" "holds b s"
  shows "\<exists>s'. xnd_bitmap_clear b s = Some (Bitmap None (b_size b) None, s') \<and>
          heap s' = release (addrs b) (heap s) \<and> grants s' = grants s \<and> err s' = err s"
proof -
  from assms(2) have "distinct (addr_list b)"
    and "\<forall>a \<in> addrs b. a < length (heap s) \<and> heap s ! a \<noteq> None"
    unfolding holds_def by blast+
  with assms(1) show ?thesis by (rule clear_releases(1))
qed

section \<open>The builder on the example descriptors\<close>

lemma replicate_numeral_Cons: "replicate (numeral k) x = x # replicate (pred_numeral k) x"
  by (simp add: numeral_eq_Suc)

lemma list_update_numeral_Cons: "(x # xs)[numeral k := y] = x # xs[pred_numeral k := y]"
  by (simp add: numeral_eq_Suc)

lemmas eval_defs =
  bitmap_init.simps init_loop.simps xnd_bitmap_empty_def ndt_is_concrete_def
  ndt_is_optional_def ndt_subtree_is_optional_def t_ndim_def bitmap_array_new_def bits_new_def
  ndt_calloc_def ndt_free_def ndt_memory_error_def sizeof_xnd_bitmap_def child_def set_child_def
  bitmap_size_def c_div_def signed_divide_int_def replicate_numeral_Cons list_update_numeral_Cons
  opt_scalar_def plain_scalar_def fixed3_opt_def var_opt_def tuple_opt_plain_def opt_tuple_def
  mem0_def

lemma build_tuple_opt_plain:
  "bitmap_init xnd_bitmap_empty tuple_opt_plain 1 mem0 =
     Some (0, Bitmap None 2 (Some (0, [Bitmap (Some 1) 0 None, Bitmap None 0 None])),
           \<lparr>heap = [Some (Nodes 2), Some (Bytes [0])], grants = [], err = None\<rparr>)"
  by (simp add: eval_defs)

lemma build_opt_tuple:
  "bitmap_init xnd_bitmap_empty opt_tuple 1 mem0 =
     Some (0, Bitmap (Some 0) 2 (Some (1, [Bitmap (Some 2) 0 None, Bitmap None 0 None])),
           \<lparr>heap = [Some (Bytes [0]), Some (Nodes 2), Some (Bytes [0])], grants = [], err = None\<rparr>)"
  by (simp add: eval_defs)

lemma clear_array_numeral:
  "clear_array (numeral k) [] s = None"
  "clear_array (numeral k) (c # cs) s =
     (case xnd_bitmap_clear c s of
        None \<Rightarrow> None
      | Some (c', s') \<Rightarrow>
          (case clear_array (pred_numeral k) cs s' of
             None \<Rightarrow> None
           | Some (cs', s'') \<Rightarrow> Some (c' # cs', s'')))"
  by (simp_all add: numeral_eq_Suc)

lemma build_opt_tuple_fails:
  "bitmap_init xnd_bitmap_empty opt_tuple 2 (mem0\<lparr>grants := [True, True, True, False]\<rparr>) =
     Some (- 1, Bitmap None 4 None,
           \<lparr>heap = [None, None, None], grants = [], err = Some MemoryError\<rparr>)"
  by (simp add: eval_defs clear_array_numeral)

lemma clear_tuple_opt_plain:
  "xnd_bitmap_clear (Bitmap None 2 (Some (0, [Bitmap (Some 1) 0 None, Bitmap None 0 None])))
       \<lparr>heap = [Some (Nodes 2), Some (Bytes [0])], grants = [], err = None\<rparr> =
     Some (Bitmap None 2 None, \<lparr>heap = [None, None], grants = [], err = None\<rparr>)"
  by (simp add: ndt_free_def clear_array_numeral)

section \<open>Claims about the destructor\<close>

lemma build_tuple_array_refused:
  "bitmap_init xnd_bitmap_empty tuple_opt_plain 1 (mem0\<lparr>grants := [False]\<rparr>) =
     Some (- 1, Bitmap None 0 None, \<lparr>heap = [], grants = [], err = Some MemoryError\<rparr>)"
  by (simp add: eval_defs clear_array_numeral)

lemma build_tuple_child_refused:
  "bitmap_init xnd_bitmap_empty tuple_opt_plain 1 (mem0\<lparr>grants := [True, False]\<rparr>) =
     Some (- 1, Bitmap None 2 None, \<lparr>heap = [None], grants = [], err = Some MemoryError\<rparr>)"
  by (simp add: eval_defs clear_array_numeral)

text \<open>
  C5.  \<^verbatim>\<open>xnd_bitmap_clear\<close> on the node that \<^verbatim>\<open>bitmap_init\<close> builds for the tuple
  \<open>(?scalar, scalar)\<close>: the buffer of the first child and the child array are freed
  and \<^verbatim>\<open>data\<close> and \<^verbatim>\<open>next\<close> are NULL, but \<^verbatim>\<open>size\<close> is still 2.  That is not the node a
  fresh node is: \<^verbatim>\<open>bitmap_init\<close> asserts \<^verbatim>\<open>b->size == 0\<close> and has no result on it.  The
  two failure paths of \<^verbatim>\<open>bitmap_init\<close> differ in the same way: when the request for
  the child array is refused the node comes back with \<^verbatim>\<open>size\<close> 0, when the request of
  a child is refused it comes back with \<^verbatim>\<open>size\<close> 2.
\<close>

theorem destructor_keeps_size:
  "bitmap_init xnd_bitmap_empty tuple_opt_plain 1 mem0 =
     Some (0, Bitmap None 2 (Some (0, [Bitmap (Some 1) 0 None, Bitmap None 0 None])),
           \<lparr>heap = [Some (Nodes 2), Some (Bytes [0])], grants = [], err = None\<rparr>)
   \<and> xnd_bitmap_clear (Bitmap None 2 (Some (0, [Bitmap (Some 1) 0 None, Bitmap None 0 None])))
       \<lparr>heap = [Some (Nodes 2), Some (Bytes [0])], grants = [], err = None\<rparr>
     = Some (Bitmap None 2 None, \<lparr>heap = [None, None], grants = [], err = None\<rparr>)
   \<and> Bitmap None 2 None \<noteq> xnd_bitmap_empty
   \<and> bitmap_init (Bitmap None 2 None) tuple_opt_plain 1
        \<lparr>heap = [None, None], grants = [], err = None\<rparr> = None
   \<and> bitmap_init xnd_bitmap_empty tuple_opt_plain 1 (mem0\<lparr>grants := [False]\<rparr>) =
       Some (- 1, Bitmap None 0 None, \<lparr>heap = [], grants = [], err = Some MemoryError\<rparr>)
   \<and> bitmap_init xnd_bitmap_empty tuple_opt_plain 1 (mem0\<lparr>grants := [True, False]\<rparr>) =
       Some (- 1, Bitmap None 2 None, \<lparr>heap = [None], grants = [], err = Some MemoryError\<rparr>)"
proof -
  have ne: "Bitmap None 2 None \<noteq> xnd_bitmap_empty"
    by (simp add: xnd_bitmap_empty_def)
  then have again: "bitmap_init (Bitmap None 2 None) tuple_opt_plain 1
      \<lparr>heap = [None, None], grants = [], err = None\<rparr> = None"
    by (rule bitmap_init_asserts [OF disjI2])
  note build_tuple_opt_plain
  moreover note clear_tuple_opt_plain
  moreover note ne
  moreover note again
  moreover note build_tuple_array_refused
  moreover note build_tuple_child_refused
  ultimately show ?thesis by (intro conjI)
qed

section \<open>The control flow of the builder\<close>

lemma empty_iff:
  "(b = xnd_bitmap_empty) = (b_data b = None \<and> b_size b = 0 \<and> b_next b = None)"
  by (cases b) (simp add: xnd_bitmap_empty_def)

lemma bitmap_init_unfold:
  "bitmap_init b t nitems s =
     (if \<not> ndt_is_concrete t \<or> b \<noteq> xnd_bitmap_empty then None
      else
        case data_step t nitems s of
          Inl s1 \<Rightarrow> Some (- 1, xnd_bitmap_empty, s1)
        | Inr (b1, s1) \<Rightarrow>
            if \<not> ndt_subtree_is_optional t then Some (0, b1, s1)
            else
              (case t of
                 FixedDim h shape e \<Rightarrow> bitmap_init b1 e (nitems * shape) s1
               | VarDim h offsets dtype \<Rightarrow>
                   (if offsets = [] then None else bitmap_init b1 dtype (last offsets) s1)
               | Tuple h ts \<Rightarrow> init_fields b1 ts nitems s1
               | Record h ts \<Rightarrow> init_fields b1 ts nitems s1
               | Other h \<Rightarrow> Some (0, b1, s1)))"
proof (cases "b = xnd_bitmap_empty")
  case False
  then show ?thesis by (simp add: bitmap_init_asserts)
next
  case True
  show ?thesis
    unfolding True
    by (subst bitmap_init.simps)
      (auto simp: xnd_bitmap_empty_def data_step_def init_fields_def
        split: prod.splits option.splits ndt.splits)
qed

lemma data_step_cases:
  obtains (nomem) s1 where "t_ndim t = 0" "ndt_is_optional t" "bits_new nitems s = (None, s1)"
      "data_step t nitems s = Inl s1"
  | (data) a s1 where "t_ndim t = 0" "ndt_is_optional t" "bits_new nitems s = (Some a, s1)"
      "data_step t nitems s = Inr (Bitmap (Some a) 0 None, s1)"
  | (nodata) "\<not> (t_ndim t = 0 \<and> ndt_is_optional t)"
      "data_step t nitems s = Inr (xnd_bitmap_empty, s)"
proof (cases "t_ndim t = 0 \<and> ndt_is_optional t")
  case False
  then show ?thesis by (intro nodata) (auto simp: data_step_def)
next
  case True
  obtain p s1 where b: "bits_new nitems s = (p, s1)" by (cases "bits_new nitems s")
  show ?thesis
  proof (cases p)
    case None
    then show ?thesis using True b by (intro nomem [of s1]) (simp_all add: data_step_def)
  next
    case (Some a)
    then show ?thesis using True b by (intro data [of a s1]) (simp_all add: data_step_def)
  qed
qed

lemma int_less_2p63: "(int n < 2 ^ 63) = (n < 2 ^ 63)"
  by simp

text \<open>
  Induction over a run of the builder that returns: one case for each way through
  \<^verbatim>\<open>bitmap_init\<close> (\<open>P\<close>) and through the two loops (\<open>Q\<close>).
\<close>

lemma builder_induct [consumes 1, case_names nomem leaf fixed var fields_nomem fields
    loop_done loop_row child_fail child_ok]:
  fixes P :: "ndt \<Rightarrow> int64 \<Rightarrow> mem \<Rightarrow> int \<times> xnd_bitmap \<times> mem \<Rightarrow> bool"
    and Q :: "xnd_bitmap \<Rightarrow> ndt list \<Rightarrow> nat \<Rightarrow> nat \<Rightarrow> nat \<Rightarrow> mem \<Rightarrow> int \<times> xnd_bitmap \<times> mem \<Rightarrow> bool"
  assumes run: "bitmap_init b0 t0 nitems0 s0 = Some r0"
    and nomem: "\<And>t nitems s s1.
      \<lbrakk>ndt_is_concrete t; data_step t nitems s = Inl s1\<rbrakk>
      \<Longrightarrow> P t nitems s (- 1, xnd_bitmap_empty, s1)"
    and leaf: "\<And>t nitems s b1 s1.
      \<lbrakk>ndt_is_concrete t; data_step t nitems s = Inr (b1, s1);
       \<not> ndt_subtree_is_optional t \<or> (\<exists>h. t = Other h)\<rbrakk>
      \<Longrightarrow> P t nitems s (0, b1, s1)"
    and fixed: "\<And>h shape e nitems s r.
      \<lbrakk>ndt_is_concrete (FixedDim h shape e);
       data_step (FixedDim h shape e) nitems s = Inr (xnd_bitmap_empty, s);
       ndt_subtree_is_optional (FixedDim h shape e);
       bitmap_init xnd_bitmap_empty e (nitems * shape) s = Some r;
       P e (nitems * shape) s r\<rbrakk>
      \<Longrightarrow> P (FixedDim h shape e) nitems s r"
    and var: "\<And>h offsets dtype nitems s r.
      \<lbrakk>ndt_is_concrete (VarDim h offsets dtype);
       data_step (VarDim h offsets dtype) nitems s = Inr (xnd_bitmap_empty, s);
       ndt_subtree_is_optional (VarDim h offsets dtype); offsets \<noteq> [];
       bitmap_init xnd_bitmap_empty dtype (last offsets) s = Some r;
       P dtype (last offsets) s r\<rbrakk>
      \<Longrightarrow> P (VarDim h offsets dtype) nitems s r"
    and fields_nomem: "\<And>t h ts nitems s b1 s1 s2 b2 s3.
      \<lbrakk>t = Tuple h ts \<or> t = Record h ts; ndt_is_concrete t; ndt_subtree_is_optional t;
       data_step t nitems s = Inr (b1, s1);
       bitmap_array_new (nitems * of_nat (length ts)) s1 = (None, s2);
       xnd_bitmap_clear b1 s2 = Some (b2, s3)\<rbrakk>
      \<Longrightarrow> P t nitems s (- 1, b2, s3)"
    and fields: "\<And>t h ts nitems s b1 s1 arr s2 r.
      \<lbrakk>t = Tuple h ts \<or> t = Record h ts; ndt_is_concrete t; ndt_subtree_is_optional t;
       data_step t nitems s = Inr (b1, s1);
       bitmap_array_new (nitems * of_nat (length ts)) s1 = (Some arr, s2);
       init_loop (Bitmap (b_data b1) (nitems * of_nat (length ts)) (Some arr)) ts
         (nat (sint nitems)) 0 0 s2 = Some r;
       Q (Bitmap (b_data b1) (nitems * of_nat (length ts)) (Some arr)) ts
         (nat (sint nitems)) 0 0 s2 r\<rbrakk>
      \<Longrightarrow> P t nitems s r"
    and loop_done: "\<And>b ts nitems i k s. \<not> i < nitems \<Longrightarrow> Q b ts nitems i k s (0, b, s)"
    and loop_row: "\<And>b ts nitems i k s r.
      \<lbrakk>i < nitems; \<not> k < length ts; init_loop b ts nitems (Suc i) 0 s = Some r;
       Q b ts nitems (Suc i) 0 s r\<rbrakk>
      \<Longrightarrow> Q b ts nitems i k s r"
    and child_fail: "\<And>b ts nitems i k s rc c' s' b' s''.
      \<lbrakk>i < nitems; k < length ts; int (i * length ts + k) < 2 ^ 63;
       child b (i * length ts + k) = Some xnd_bitmap_empty;
       bitmap_init xnd_bitmap_empty (ts ! k) 1 s = Some (rc, c', s');
       P (ts ! k) 1 s (rc, c', s'); rc < 0;
       xnd_bitmap_clear (set_child b (i * length ts + k) c') s' = Some (b', s'')\<rbrakk>
      \<Longrightarrow> Q b ts nitems i k s (- 1, b', s'')"
    and child_ok: "\<And>b ts nitems i k s rc c' s' r.
      \<lbrakk>i < nitems; k < length ts; int (i * length ts + k) < 2 ^ 63;
       child b (i * length ts + k) = Some xnd_bitmap_empty;
       bitmap_init xnd_bitmap_empty (ts ! k) 1 s = Some (rc, c', s');
       P (ts ! k) 1 s (rc, c', s'); \<not> rc < 0;
       init_loop (set_child b (i * length ts + k) c') ts nitems i (Suc k) s' = Some r;
       Q (set_child b (i * length ts + k) c') ts nitems i (Suc k) s' r\<rbrakk>
      \<Longrightarrow> Q b ts nitems i k s r"
  shows "P t0 nitems0 s0 r0"
proof -
  have "(\<forall>r. bitmap_init b t nitems s = Some r \<longrightarrow> P t nitems s r)"
    and "(\<forall>r. init_loop c ts n i k s' = Some r \<longrightarrow> Q c ts n i k s' r)"
    for b t nitems s c ts n i k s'
  proof (induction b t nitems s and c ts n i k s' rule: bitmap_init_init_loop.induct)
    case (1 b t nitems s)
    show ?case
    proof (intro allI impI)
      fix r
      assume run: "bitmap_init b t nitems s = Some r"
      have b: "b = xnd_bitmap_empty" and conc: "ndt_is_concrete t"
        using run bitmap_init_asserts [of t b nitems s] by auto
      have pre: "\<not> (\<not> ndt_is_concrete t \<or> b_data b \<noteq> None \<or> b_size b \<noteq> 0 \<or> b_next b \<noteq> None)"
        using b conc by (simp add: xnd_bitmap_empty_def)
      note unf = run [unfolded bitmap_init_unfold [of b t nitems s]]
      show "P t nitems s r"
      proof (cases t nitems s rule: data_step_cases)
        case (nomem s1)
        then show ?thesis
          using unf b conc assms(2) [of t nitems s s1] by auto
      next
        case (data a s1)
        have ne: "Bitmap (Some a) 0 None \<noteq> xnd_bitmap_empty"
          by (simp add: xnd_bitmap_empty_def)
        show ?thesis
        proof (cases "ndt_subtree_is_optional t")
          case False
          then show ?thesis
            using unf b conc data leaf [of t nitems s "Bitmap (Some a) 0 None" s1] by auto
        next
          case True
          show ?thesis
          proof (cases t)
            case (FixedDim h shape e)
            then show ?thesis
              using unf b conc data True ne by (simp add: bitmap_init_asserts)
          next
            case (VarDim h offsets dtype)
            then show ?thesis
              using unf b conc data True ne by (simp add: bitmap_init_asserts split: if_splits)
          next
            case (Tuple h ts)
            let ?n = "nitems * of_nat (length ts)"
            from unf b conc data True Tuple
            have f: "init_fields (Bitmap (Some a) 0 None) ts nitems s1 = Some r" by simp
            obtain p s2 where an: "bitmap_array_new ?n s1 = (p, s2)"
              by (cases "bitmap_array_new ?n s1")
            show ?thesis
            proof (cases p)
              case None
              with f an obtain b2 s3 where
                "xnd_bitmap_clear (Bitmap (Some a) 0 None) s2 = Some (b2, s3)" "r = (- 1, b2, s3)"
                by (auto simp: init_fields_def Let_def split: option.splits)
              then show ?thesis
                using fields_nomem [of t h ts nitems s "Bitmap (Some a) 0 None" s1 s2 b2 s3]
                  Tuple conc True data an None by simp
            next
              case (Some arr)
              with f an have l: "init_loop (Bitmap (Some a) ?n (Some arr)) ts
                  (nat (sint nitems)) 0 0 s2 = Some r"
                by (simp add: init_fields_def Let_def)
              have "bits_new nitems s = (Some a, s1)" by (rule data(3))
              with data(1,2) have ds: "(if t_ndim t = 0 \<and> ndt_is_optional t
                 then case bits_new nitems s of (None, s1) \<Rightarrow> Inl s1
                   | (Some a, s1) \<Rightarrow> Inr (Bitmap (Some a) (b_size b) (b_next b), s1)
                 else Inr (b, s)) = Inr (Bitmap (Some a) 0 None, s1)"
                using b by (simp add: xnd_bitmap_empty_def)
              have "\<forall>r. init_loop (Bitmap (b_data (Bitmap (Some a) 0 None)) ?n (Some arr)) ts
                  (nat (sint nitems)) 0 0 s2 = Some r \<longrightarrow>
                  Q (Bitmap (b_data (Bitmap (Some a) 0 None)) ?n (Some arr)) ts
                    (nat (sint nitems)) 0 0 s2 r"
                using an Some True
                by (intro "1.IH"(3) [OF pre ds refl _ Tuple refl _ refl]) simp_all
              with l have "Q (Bitmap (Some a) ?n (Some arr)) ts (nat (sint nitems)) 0 0 s2 r"
                by simp
              then show ?thesis
                using fields [of t h ts nitems s "Bitmap (Some a) 0 None" s1 arr s2 r]
                  Tuple conc True data an Some l by simp
            qed
          next
            case (Record h ts)
            let ?n = "nitems * of_nat (length ts)"
            from unf b conc data True Record
            have f: "init_fields (Bitmap (Some a) 0 None) ts nitems s1 = Some r" by simp
            obtain p s2 where an: "bitmap_array_new ?n s1 = (p, s2)"
              by (cases "bitmap_array_new ?n s1")
            show ?thesis
            proof (cases p)
              case None
              with f an obtain b2 s3 where
                "xnd_bitmap_clear (Bitmap (Some a) 0 None) s2 = Some (b2, s3)" "r = (- 1, b2, s3)"
                by (auto simp: init_fields_def Let_def split: option.splits)
              then show ?thesis
                using fields_nomem [of t h ts nitems s "Bitmap (Some a) 0 None" s1 s2 b2 s3]
                  Record conc True data an None by simp
            next
              case (Some arr)
              with f an have l: "init_loop (Bitmap (Some a) ?n (Some arr)) ts
                  (nat (sint nitems)) 0 0 s2 = Some r"
                by (simp add: init_fields_def Let_def)
              have "bits_new nitems s = (Some a, s1)" by (rule data(3))
              with data(1,2) have ds: "(if t_ndim t = 0 \<and> ndt_is_optional t
                 then case bits_new nitems s of (None, s1) \<Rightarrow> Inl s1
                   | (Some a, s1) \<Rightarrow> Inr (Bitmap (Some a) (b_size b) (b_next b), s1)
                 else Inr (b, s)) = Inr (Bitmap (Some a) 0 None, s1)"
                using b by (simp add: xnd_bitmap_empty_def)
              have "\<forall>r. init_loop (Bitmap (b_data (Bitmap (Some a) 0 None)) ?n (Some arr)) ts
                  (nat (sint nitems)) 0 0 s2 = Some r \<longrightarrow>
                  Q (Bitmap (b_data (Bitmap (Some a) 0 None)) ?n (Some arr)) ts
                    (nat (sint nitems)) 0 0 s2 r"
                using an Some True
                by (intro "1.IH"(4) [OF pre ds refl _ Record refl _ refl]) simp_all
              with l have "Q (Bitmap (Some a) ?n (Some arr)) ts (nat (sint nitems)) 0 0 s2 r"
                by simp
              then show ?thesis
                using fields [of t h ts nitems s "Bitmap (Some a) 0 None" s1 arr s2 r]
                  Record conc True data an Some l by simp
            qed
          next
            case (Other h)
            then show ?thesis
              using unf b conc data True leaf [of t nitems s "Bitmap (Some a) 0 None" s1] by auto
          qed
        qed
      next
        case nodata
        have ds: "(if t_ndim t = 0 \<and> ndt_is_optional t
                 then case bits_new nitems s of (None, s1) \<Rightarrow> Inl s1
                   | (Some a, s1) \<Rightarrow> Inr (Bitmap (Some a) (b_size b) (b_next b), s1)
                 else Inr (b, s)) = Inr (b, s)"
          using nodata(1) by auto
        show ?thesis
        proof (cases "ndt_subtree_is_optional t")
          case False
          then show ?thesis
            using unf b conc nodata leaf [of t nitems s xnd_bitmap_empty s] by auto
        next
          case True
          show ?thesis
          proof (cases t)
            case (FixedDim h shape e)
            with unf b conc nodata True
            have rec: "bitmap_init xnd_bitmap_empty e (nitems * shape) s = Some r" by simp
            have "\<forall>r. bitmap_init b e (nitems * shape) s = Some r \<longrightarrow> P e (nitems * shape) s r"
              using True by (intro "1.IH"(1) [OF pre ds refl _ FixedDim]) simp
            with rec b have "P e (nitems * shape) s r" by simp
            then show ?thesis
              using fixed [of h shape e nitems s r] FixedDim conc True nodata rec by simp
          next
            case (VarDim h offsets dtype)
            with unf b conc nodata True
            have ne: "offsets \<noteq> []"
              and rec: "bitmap_init xnd_bitmap_empty dtype (last offsets) s = Some r"
              by (simp_all split: if_splits)
            have "\<forall>r. bitmap_init b dtype (last offsets) s = Some r \<longrightarrow> P dtype (last offsets) s r"
              using True ne by (intro "1.IH"(2) [OF pre ds refl _ VarDim]) simp_all
            with rec b have "P dtype (last offsets) s r" by simp
            then show ?thesis
              using var [of h offsets dtype nitems s r] VarDim conc True nodata rec ne by simp
          next
            case (Tuple h ts)
            let ?n = "nitems * of_nat (length ts)"
            from unf b conc nodata True Tuple
            have f: "init_fields xnd_bitmap_empty ts nitems s = Some r" by simp
            obtain p s2 where an: "bitmap_array_new ?n s = (p, s2)"
              by (cases "bitmap_array_new ?n s")
            show ?thesis
            proof (cases p)
              case None
              with f an obtain b2 s3 where
                "xnd_bitmap_clear xnd_bitmap_empty s2 = Some (b2, s3)" "r = (- 1, b2, s3)"
                by (auto simp: init_fields_def Let_def split: option.splits)
              then show ?thesis
                using fields_nomem [of t h ts nitems s xnd_bitmap_empty s s2 b2 s3]
                  Tuple conc True nodata an None by simp
            next
              case (Some arr)
              with f an have l: "init_loop (Bitmap (b_data xnd_bitmap_empty) ?n (Some arr)) ts
                  (nat (sint nitems)) 0 0 s2 = Some r"
                by (simp add: init_fields_def Let_def)
              have "\<forall>r. init_loop (Bitmap (b_data b) ?n (Some arr)) ts
                  (nat (sint nitems)) 0 0 s2 = Some r \<longrightarrow>
                  Q (Bitmap (b_data b) ?n (Some arr)) ts (nat (sint nitems)) 0 0 s2 r"
                using an Some True
                by (intro "1.IH"(3) [OF pre ds refl _ Tuple refl _ refl]) simp_all
              with l b have "Q (Bitmap (b_data xnd_bitmap_empty) ?n (Some arr)) ts
                  (nat (sint nitems)) 0 0 s2 r"
                by simp
              then show ?thesis
                using fields [of t h ts nitems s xnd_bitmap_empty s arr s2 r]
                  Tuple conc True nodata an Some l by simp
            qed
          next
            case (Record h ts)
            let ?n = "nitems * of_nat (length ts)"
            from unf b conc nodata True Record
            have f: "init_fields xnd_bitmap_empty ts nitems s = Some r" by simp
            obtain p s2 where an: "bitmap_array_new ?n s = (p, s2)"
              by (cases "bitmap_array_new ?n s")
            show ?thesis
            proof (cases p)
              case None
              with f an obtain b2 s3 where
                "xnd_bitmap_clear xnd_bitmap_empty s2 = Some (b2, s3)" "r = (- 1, b2, s3)"
                by (auto simp: init_fields_def Let_def split: option.splits)
              then show ?thesis
                using fields_nomem [of t h ts nitems s xnd_bitmap_empty s s2 b2 s3]
                  Record conc True nodata an None by simp
            next
              case (Some arr)
              with f an have l: "init_loop (Bitmap (b_data xnd_bitmap_empty) ?n (Some arr)) ts
                  (nat (sint nitems)) 0 0 s2 = Some r"
                by (simp add: init_fields_def Let_def)
              have "\<forall>r. init_loop (Bitmap (b_data b) ?n (Some arr)) ts
                  (nat (sint nitems)) 0 0 s2 = Some r \<longrightarrow>
                  Q (Bitmap (b_data b) ?n (Some arr)) ts (nat (sint nitems)) 0 0 s2 r"
                using an Some True
                by (intro "1.IH"(4) [OF pre ds refl _ Record refl _ refl]) simp_all
              with l b have "Q (Bitmap (b_data xnd_bitmap_empty) ?n (Some arr)) ts
                  (nat (sint nitems)) 0 0 s2 r"
                by simp
              then show ?thesis
                using fields [of t h ts nitems s xnd_bitmap_empty s arr s2 r]
                  Record conc True nodata an Some l by simp
            qed
          next
            case (Other h)
            then show ?thesis
              using unf b conc nodata True leaf [of t nitems s xnd_bitmap_empty s] by auto
          qed
        qed
      qed
    qed
  next
    case (2 b ts nitems i k s)
    show ?case
    proof (intro allI impI)
      fix r
      assume run: "init_loop b ts nitems i k s = Some r"
      note unf = run [unfolded init_loop.simps [of b ts nitems i k s]]
      show "Q b ts nitems i k s r"
      proof (cases "i < nitems")
        case False
        then show ?thesis using unf loop_done [of i nitems b ts k s] by simp
      next
        case i: True
        show ?thesis
        proof (cases "k < length ts")
          case False
          with unf i have rec: "init_loop b ts nitems (Suc i) 0 s = Some r" by simp
          then have "Q b ts nitems (Suc i) 0 s r"
            using "2.IH"(3) [OF i False] by simp
          then show ?thesis using loop_row [OF i False rec] by simp
        next
          case k: True
          let ?idx = "i * length ts + k"
          have idx: "int ?idx < 2 ^ 63"
          proof (rule ccontr)
            assume "\<not> int ?idx < 2 ^ 63"
            then have "\<not> ?idx < 2 ^ 63" unfolding int_less_2p63 .
            with unf i k show False by (simp add: Let_def)
          qed
          have "?idx < 2 ^ 63" using idx unfolding int_less_2p63 .
          with unf i k have unf2:
            "(case child b ?idx of
                None \<Rightarrow> None
              | Some c \<Rightarrow>
                  (case bitmap_init c (ts ! k) 1 s of
                     None \<Rightarrow> None
                   | Some (rc, c', s') \<Rightarrow>
                       if rc < 0 then
                         (case xnd_bitmap_clear (set_child b ?idx c') s' of
                            None \<Rightarrow> None
                          | Some (b', s'') \<Rightarrow> Some (- 1, b', s''))
                       else init_loop (set_child b ?idx c') ts nitems i (Suc k) s')) = Some r"
            by (simp add: Let_def)
          from unf2 obtain c where c: "child b ?idx = Some c"
            by (auto split: option.splits)
          from unf2 c obtain rc c' s' where
            ci: "bitmap_init c (ts ! k) 1 s = Some (rc, c', s')"
            by (auto split: option.splits)
          have ce: "c = xnd_bitmap_empty"
            using ci bitmap_init_asserts [of "ts ! k" c 1 s] by auto
          have nn: "\<not> \<not> int ?idx < 2 ^ 63" using idx by simp
          have "\<forall>r. bitmap_init c (ts ! k) 1 s = Some r \<longrightarrow> P (ts ! k) 1 s r"
            by (rule "2.IH"(1) [OF i k refl nn c])
          with ci have p: "P (ts ! k) 1 s (rc, c', s')" by simp
          show ?thesis
          proof (cases "rc < 0")
            case True
            with unf2 c ci obtain b' s'' where
              cl: "xnd_bitmap_clear (set_child b ?idx c') s' = Some (b', s'')"
              and r: "r = (- 1, b', s'')"
              by (auto split: option.splits)
            show ?thesis
              unfolding r
              using child_fail [OF i k idx c [unfolded ce] ci [unfolded ce] p True cl] .
          next
            case False
            with unf2 c ci have
              rec: "init_loop (set_child b ?idx c') ts nitems i (Suc k) s' = Some r"
              by simp
            have "\<forall>r. init_loop (set_child b ?idx c') ts nitems i (Suc k) s' = Some r \<longrightarrow>
                Q (set_child b ?idx c') ts nitems i (Suc k) s' r"
              by (rule "2.IH"(2) [OF i k refl nn c ci refl refl False])
            with rec have q: "Q (set_child b ?idx c') ts nitems i (Suc k) s' r" by simp
            show ?thesis
              using child_ok [OF i k idx c [unfolded ce] ci [unfolded ce] p False rec q] .
          qed
        qed
      qed
    qed
  qed
  then show ?thesis using run by blast
qed

text \<open>The same for a run of the loops alone.\<close>

lemma loop_induct [consumes 1, case_names loop_done loop_row child_fail child_ok]:
  fixes Q :: "xnd_bitmap \<Rightarrow> ndt list \<Rightarrow> nat \<Rightarrow> nat \<Rightarrow> nat \<Rightarrow> mem \<Rightarrow> int \<times> xnd_bitmap \<times> mem \<Rightarrow> bool"
  assumes run: "init_loop b0 ts0 n0 i0 k0 s0 = Some r0"
    and loop_done: "\<And>b ts nitems i k s. \<not> i < nitems \<Longrightarrow> Q b ts nitems i k s (0, b, s)"
    and loop_row: "\<And>b ts nitems i k s r.
      \<lbrakk>i < nitems; \<not> k < length ts; init_loop b ts nitems (Suc i) 0 s = Some r;
       Q b ts nitems (Suc i) 0 s r\<rbrakk>
      \<Longrightarrow> Q b ts nitems i k s r"
    and child_fail: "\<And>b ts nitems i k s rc c' s' b' s''.
      \<lbrakk>i < nitems; k < length ts; int (i * length ts + k) < 2 ^ 63;
       child b (i * length ts + k) = Some xnd_bitmap_empty;
       bitmap_init xnd_bitmap_empty (ts ! k) 1 s = Some (rc, c', s'); rc < 0;
       xnd_bitmap_clear (set_child b (i * length ts + k) c') s' = Some (b', s'')\<rbrakk>
      \<Longrightarrow> Q b ts nitems i k s (- 1, b', s'')"
    and child_ok: "\<And>b ts nitems i k s rc c' s' r.
      \<lbrakk>i < nitems; k < length ts; int (i * length ts + k) < 2 ^ 63;
       child b (i * length ts + k) = Some xnd_bitmap_empty;
       bitmap_init xnd_bitmap_empty (ts ! k) 1 s = Some (rc, c', s'); \<not> rc < 0;
       init_loop (set_child b (i * length ts + k) c') ts nitems i (Suc k) s' = Some r;
       Q (set_child b (i * length ts + k) c') ts nitems i (Suc k) s' r\<rbrakk>
      \<Longrightarrow> Q b ts nitems i k s r"
  shows "Q b0 ts0 n0 i0 k0 s0 r0"
proof -
  have "True" and "(\<forall>r. init_loop c ts n i k s' = Some r \<longrightarrow> Q c ts n i k s' r)"
    for b :: xnd_bitmap and t :: ndt and nitems :: int64 and s :: mem and c ts n i k s'
  proof (induction b t nitems s and c ts n i k s' rule: bitmap_init_init_loop.induct)
    case (1 b t nitems s)
    show ?case by simp
  next
    case (2 b ts nitems i k s)
    show ?case
    proof (intro allI impI)
      fix r
      assume run: "init_loop b ts nitems i k s = Some r"
      note unf = run [unfolded init_loop.simps [of b ts nitems i k s]]
      show "Q b ts nitems i k s r"
      proof (cases "i < nitems")
        case False
        then show ?thesis using unf loop_done [of i nitems b ts k s] by simp
      next
        case i: True
        show ?thesis
        proof (cases "k < length ts")
          case False
          with unf i have rec: "init_loop b ts nitems (Suc i) 0 s = Some r" by simp
          then have "Q b ts nitems (Suc i) 0 s r"
            using "2.IH"(3) [OF i False] by simp
          then show ?thesis using loop_row [OF i False rec] by simp
        next
          case k: True
          let ?idx = "i * length ts + k"
          have idx: "int ?idx < 2 ^ 63"
          proof (rule ccontr)
            assume "\<not> int ?idx < 2 ^ 63"
            then have "\<not> ?idx < 2 ^ 63" unfolding int_less_2p63 .
            with unf i k show False by (simp add: Let_def)
          qed
          have "?idx < 2 ^ 63" using idx unfolding int_less_2p63 .
          with unf i k have unf2:
            "(case child b ?idx of
                None \<Rightarrow> None
              | Some c \<Rightarrow>
                  (case bitmap_init c (ts ! k) 1 s of
                     None \<Rightarrow> None
                   | Some (rc, c', s') \<Rightarrow>
                       if rc < 0 then
                         (case xnd_bitmap_clear (set_child b ?idx c') s' of
                            None \<Rightarrow> None
                          | Some (b', s'') \<Rightarrow> Some (- 1, b', s''))
                       else init_loop (set_child b ?idx c') ts nitems i (Suc k) s')) = Some r"
            by (simp add: Let_def)
          from unf2 obtain c where c: "child b ?idx = Some c"
            by (auto split: option.splits)
          from unf2 c obtain rc c' s' where
            ci: "bitmap_init c (ts ! k) 1 s = Some (rc, c', s')"
            by (auto split: option.splits)
          have ce: "c = xnd_bitmap_empty"
            using ci bitmap_init_asserts [of "ts ! k" c 1 s] by auto
          have nn: "\<not> \<not> int ?idx < 2 ^ 63" using idx by simp
          show ?thesis
          proof (cases "rc < 0")
            case True
            with unf2 c ci obtain b' s'' where
              cl: "xnd_bitmap_clear (set_child b ?idx c') s' = Some (b', s'')"
              and r: "r = (- 1, b', s'')"
              by (auto split: option.splits)
            show ?thesis
              unfolding r
              using child_fail [OF i k idx c [unfolded ce] ci [unfolded ce] True cl] .
          next
            case False
            with unf2 c ci have
              rec: "init_loop (set_child b ?idx c') ts nitems i (Suc k) s' = Some r"
              by simp
            have "\<forall>r. init_loop (set_child b ?idx c') ts nitems i (Suc k) s' = Some r \<longrightarrow>
                Q (set_child b ?idx c') ts nitems i (Suc k) s' r"
              by (rule "2.IH"(2) [OF i k refl nn c ci refl refl False])
            with rec have q: "Q (set_child b ?idx c') ts nitems i (Suc k) s' r" by simp
            show ?thesis
              using child_ok [OF i k idx c [unfolded ce] ci [unfolded ce] False rec q] .
          qed
        qed
      qed
    qed
  qed
  then show ?thesis using run by blast
qed

section \<open>Ownership is kept by every step of the builder\<close>

lemma addrs_empty [simp]: "addrs xnd_bitmap_empty = {}"
  by (simp add: xnd_bitmap_empty_def)

lemma wf_empty [simp]: "wf_bitmap xnd_bitmap_empty"
  by (simp add: xnd_bitmap_empty_def)

lemma addr_list_empty [simp]: "addr_list xnd_bitmap_empty = []"
  by (simp add: xnd_bitmap_empty_def)

lemma holds_empty [simp]: "holds xnd_bitmap_empty s"
  by (simp add: holds_def)

lemma owned_start: "owned s xnd_bitmap_empty s"
  by (simp add: owned_def)

lemma requests_none: "requests 0 s s"
  by (simp add: requests_def)

lemma requests_trans:
  assumes "requests 0 s s1" "requests rc s1 s2"
  shows "requests rc s s2"
proof -
  from assms(1) obtain u1 where u1: "grants s = u1 @ grants s1" "u1 = replicate (length u1) True"
    and e1: "err s1 = err s"
    by (auto simp: requests_def)
  from assms(2) obtain u2 where u2: "grants s1 = u2 @ grants s2"
    "rc = 0 \<longrightarrow> u2 = replicate (length u2) True"
    and rest: "rc = 0 \<or> rc = - 1" "rc = 0 \<longrightarrow> err s2 = err s1" "rc = - 1 \<longrightarrow> err s2 = Some MemoryError"
    by (auto simp: requests_def)
  have "grants s = (u1 @ u2) @ grants s2" using u1 u2 by simp
  moreover have "rc = 0 \<longrightarrow> u1 @ u2 = replicate (length (u1 @ u2)) True"
    using u1(2) u2(2) by (metis length_append replicate_add)
  ultimately show ?thesis
    using rest e1 unfolding requests_def by metis
qed

lemma calloc_cases:
  obtains (denied) s1 where "ndt_calloc nmemb sz blk s = (None, s1)" "heap s1 = heap s"
      "err s1 = err s" "\<exists>used. grants s = used @ grants s1"
  | (granted) s1 where "ndt_calloc nmemb sz blk s = (Some (length (heap s)), s1)"
      "heap s1 = heap s @ [Some blk]" "err s1 = err s" "nmemb * sz < 2 ^ 64"
      "\<exists>used. grants s = used @ grants s1 \<and> used = replicate (length used) True"
proof (cases "grants s")
  case Nil
  show ?thesis
  proof (cases "nmemb * sz < 2 ^ 64")
    case True
    show ?thesis
      by (rule granted [of "s\<lparr>heap := heap s @ [Some blk]\<rparr>"])
        (use Nil True in \<open>simp_all add: ndt_calloc_def\<close>)
  next
    case False
    show ?thesis
      by (rule denied [of s]) (use Nil False in \<open>simp_all add: ndt_calloc_def\<close>)
  qed
next
  case (Cons g gs)
  show ?thesis
  proof (cases "g \<and> nmemb * sz < 2 ^ 64")
    case True
    have "grants s = [True] @ gs \<and> [True] = replicate (length [True]) True"
      using Cons True by simp
    then show ?thesis
      using Cons True
      by (intro granted [of "s\<lparr>heap := heap s @ [Some blk], grants := gs\<rparr>"])
        (auto simp: ndt_calloc_def simp del: append.simps replicate.simps)
  next
    case False
    have "grants s = [g] @ gs" using Cons by simp
    then show ?thesis
      using Cons False
      by (intro denied [of "s\<lparr>grants := gs\<rparr>"])
        (auto simp: ndt_calloc_def simp del: append.simps)
  qed
qed

lemma bits_new_cases:
  obtains (denied) s1 where "bits_new n s = (None, s1)" "heap s1 = heap s"
      "requests (- 1) s s1"
  | (granted) s1 where "bits_new n s = (Some (length (heap s)), s1)"
      "heap s1 = heap s @ [Some (Bytes (replicate (unat (bitmap_size n)) 0))]"
      "requests 0 s s1"
proof (cases "unat (bitmap_size n)" "1 :: nat" "Bytes (replicate (unat (bitmap_size n)) 0)" s
    rule: calloc_cases)
  case (denied s1)
  show ?thesis
    by (rule that(1) [of "ndt_memory_error s1"])
      (use denied in \<open>auto simp: bits_new_def ndt_memory_error_def requests_def\<close>)
next
  case (granted s1)
  show ?thesis
    by (rule that(2) [of s1]) (use granted in \<open>auto simp: bits_new_def requests_def\<close>)
qed

lemma array_new_cases:
  obtains (denied) s1 where "bitmap_array_new n s = (None, s1)" "heap s1 = heap s"
      "requests (- 1) s s1"
  | (granted) s1 where
      "bitmap_array_new n s = (Some (length (heap s), replicate (unat n) xnd_bitmap_empty), s1)"
      "heap s1 = heap s @ [Some (Nodes (unat n))]" "requests 0 s s1"
      "unat n * sizeof_xnd_bitmap < 2 ^ 64"
proof (cases "unat n" sizeof_xnd_bitmap "Nodes (unat n)" s rule: calloc_cases)
  case (denied s1)
  show ?thesis
    by (rule that(1) [of "ndt_memory_error s1"])
      (use denied in \<open>auto simp: bitmap_array_new_def ndt_memory_error_def requests_def\<close>)
next
  case (granted s1)
  show ?thesis
    by (rule that(2) [of s1]) (use granted in \<open>auto simp: bitmap_array_new_def requests_def\<close>)
qed

lemma requests_same:
  assumes "requests rc s s1" "grants s2 = grants s1" "err s2 = err s1"
  shows "requests rc s s2"
  using assms by (simp add: requests_def)

lemma requests_fail_after:
  assumes "requests 0 s s1" "requests (- 1) s1 s2"
  shows "requests (- 1) s s2"
  using assms by (rule requests_trans)

lemma nat_sint_small:
  fixes n :: int64
  assumes "unat n < 2 ^ 63"
  shows "nat (sint n) = unat n"
proof -
  have "int (unat n) < 2 ^ 63" using assms unfolding int_less_2p63 .
  then have u: "uint n < 2 ^ 63" by (simp only: uint_nat)
  have "- (2 ^ 63) \<le> (0::int)" by simp
  also have "0 \<le> uint n" by simp
  finally have lo: "- (2 ^ 63) \<le> uint n" .
  have "sint n = signed_take_bit 63 (uint n)"
    by (simp add: sint_uint)
  also have "\<dots> = uint n"
    using lo u by (rule signed_take_bit_int_eq_self)
  finally have "sint n = uint n" .
  then show ?thesis by simp
qed

lemma ownedE:
  assumes "owned s0 b s"
  obtains ext where "heap s = heap s0 @ ext" "wf_bitmap b"
    "\<And>a. a \<in> addrs b \<Longrightarrow> length (heap s0) \<le> a \<and> a < length (heap s)"
    "\<And>a. \<lbrakk>length (heap s0) \<le> a; a < length (heap s); heap s ! a \<noteq> None\<rbrakk> \<Longrightarrow> a \<in> addrs b"
  using assms unfolding owned_def by blast

lemma owned_holds:
  assumes "owned s0 b s"
  shows "holds b s"
  using assms unfolding owned_def by blast

lemma ownedI:
  assumes "heap s = heap s0 @ ext" "wf_bitmap b" "holds b s"
    "\<And>a. a \<in> addrs b \<Longrightarrow> length (heap s0) \<le> a \<and> a < length (heap s)"
    "\<And>a. \<lbrakk>length (heap s0) \<le> a; a < length (heap s); heap s ! a \<noteq> None\<rbrakk> \<Longrightarrow> a \<in> addrs b"
  shows "owned s0 b s"
  unfolding owned_def using assms by blast

lemma owned_same_heap:
  assumes "owned s0 b s" "heap s1 = heap s"
  shows "owned s0 b s1"
  using assms(1) unfolding owned_def holds_def assms(2) .

lemma owned_data:
  assumes "heap s1 = heap s @ [Some blk]"
  shows "owned s (Bitmap (Some (length (heap s))) 0 None) s1"
proof (rule ownedI [OF assms])
  show "wf_bitmap (Bitmap (Some (length (heap s))) 0 None)" by simp
next
  show "holds (Bitmap (Some (length (heap s))) 0 None) s1"
    unfolding holds_def assms by simp
next
  fix a
  assume "a \<in> addrs (Bitmap (Some (length (heap s))) 0 None)"
  then show "length (heap s) \<le> a \<and> a < length (heap s1)" unfolding assms by simp
next
  fix a
  assume "length (heap s) \<le> a" "a < length (heap s1)"
  then show "a \<in> addrs (Bitmap (Some (length (heap s))) 0 None)" unfolding assms by simp
qed

lemma data_step_Inr:
  assumes "data_step t nitems s = Inr (b1, s1)"
  shows "owned s b1 s1 \<and> requests 0 s s1 \<and> b_next b1 = None \<and> b_size b1 = 0"
proof (cases t nitems s rule: data_step_cases)
  case (nomem s1)
  with assms show ?thesis by simp
next
  case (data a s1')
  with assms have eq: "b1 = Bitmap (Some a) 0 None" "s1 = s1'" by simp_all
  show ?thesis
  proof (cases nitems s rule: bits_new_cases)
    case (denied s2)
    with data show ?thesis by simp
  next
    case (granted s2)
    with data eq show ?thesis by (auto intro: owned_data)
  qed
next
  case nodata
  with assms have eq: "b1 = xnd_bitmap_empty" "s1 = s" by simp_all
  have "b_next xnd_bitmap_empty = None \<and> b_size xnd_bitmap_empty = 0"
    by (simp add: xnd_bitmap_empty_def)
  then show ?thesis
    unfolding eq by (simp add: owned_start requests_none)
qed

lemma data_step_Inl:
  assumes "data_step t nitems s = Inl s1"
  shows "heap s1 = heap s \<and> requests (- 1) s s1"
proof (cases t nitems s rule: data_step_cases)
  case (nomem s1')
  with assms have eq: "s1 = s1'" by simp
  show ?thesis
  proof (cases nitems s rule: bits_new_cases)
    case (denied s2)
    with nomem eq show ?thesis by simp
  next
    case (granted s2)
    with nomem show ?thesis by simp
  qed
next
  case (data a s1')
  with assms show ?thesis by simp
next
  case nodata
  with assms show ?thesis by simp
qed

lemma owned_array:
  assumes o: "owned s0 b1 s1" and nx: "b_next b1 = None"
    and h: "heap s2 = heap s1 @ [Some (Nodes (unat n))]"
    and fit: "unat n * sizeof_xnd_bitmap < 2 ^ 64"
  shows "owned s0 (Bitmap (b_data b1) n
           (Some (length (heap s1), replicate (unat n) xnd_bitmap_empty))) s2"
proof -
  let ?b = "Bitmap (b_data b1) n (Some (length (heap s1), replicate (unat n) xnd_bitmap_empty))"
  have "unat n < 2 ^ 63" using fit by (simp add: sizeof_xnd_bitmap_def)
  then have len: "nat (sint n) = unat n" by (rule nat_sint_small)
  obtain d sz where b1: "b1 = Bitmap d sz None" using nx by (cases b1) auto
  have ad: "addrs ?b = insert (length (heap s1)) (addrs b1)"
    unfolding b1 by auto
  from o obtain ext where ext: "heap s1 = heap s0 @ ext"
    and in1: "\<And>a. a \<in> addrs b1 \<Longrightarrow> length (heap s0) \<le> a \<and> a < length (heap s1)"
    and live1: "\<And>a. \<lbrakk>length (heap s0) \<le> a; a < length (heap s1); heap s1 ! a \<noteq> None\<rbrakk>
        \<Longrightarrow> a \<in> addrs b1"
    by (rule ownedE) (rule that)
  have l2: "length (heap s2) = Suc (length (heap s1))" using h by simp
  have l1: "length (heap s0) \<le> length (heap s1)" using ext by simp
  have hb: "holds b1 s1" using o by (rule owned_holds)
  have d1: "distinct (addr_list b1)" using hb by (rule holdsE)
  have lv1: "a < length (heap s1) \<and> heap s1 ! a \<noteq> None" if "a \<in> addrs b1" for a
    using hb that unfolding holds_def by blast
  have none: "concat (map addr_list (replicate m xnd_bitmap_empty)) = []" for m
    by (induction m) simp_all
  have al: "addr_list ?b = addr_list b1 @ [length (heap s1)]"
    unfolding b1 by (simp add: none)
  have fresh: "length (heap s1) \<notin> addrs b1" using lv1 [of "length (heap s1)"] by auto
  show ?thesis
  proof (rule ownedI)
    show "heap s2 = heap s0 @ (ext @ [Some (Nodes (unat n))])" using h ext by simp
    show "wf_bitmap ?b" using len by simp
    show "holds ?b s2"
    proof (rule holdsI)
      show "distinct (addr_list ?b)" unfolding al using d1 fresh by simp
    next
      fix a
      assume "a \<in> addrs ?b"
      then consider "a = length (heap s1)" | "a \<in> addrs b1" unfolding ad by blast
      then show "a < length (heap s2) \<and> heap s2 ! a \<noteq> None"
      proof cases
        case 1
        then show ?thesis unfolding h by simp
      next
        case 2
        from lv1 [OF 2] show ?thesis unfolding h by (simp add: nth_append)
      qed
    qed
  next
    fix a
    assume "a \<in> addrs ?b"
    then consider "a = length (heap s1)" | "a \<in> addrs b1" unfolding ad by blast
    then show "length (heap s0) \<le> a \<and> a < length (heap s2)"
    proof cases
      case 1
      then show ?thesis using l1 l2 by simp
    next
      case 2
      then show ?thesis using in1 [of a] l2 by simp
    qed
  next
    fix a
    assume a: "length (heap s0) \<le> a" "a < length (heap s2)" "heap s2 ! a \<noteq> None"
    show "a \<in> addrs ?b"
    proof (cases "a < length (heap s1)")
      case True
      then have "heap s2 ! a = heap s1 ! a" unfolding h by (simp add: nth_append)
      with a True have "a \<in> addrs b1" by (intro live1) simp_all
      then show ?thesis unfolding ad by simp
    next
      case False
      with a(2) l2 have "a = length (heap s1)" by simp
      then show ?thesis unfolding ad by simp
    qed
  qed
qed

lemma owned_clear:
  assumes o: "owned s0 b s" and c: "xnd_bitmap_clear b s = Some (b2, s3)"
  shows "owned s0 b2 s3 \<and> b2 = Bitmap None (b_size b) None \<and>
    grants s3 = grants s \<and> err s3 = err s"
proof -
  from o obtain ext where ext: "heap s = heap s0 @ ext" and wf: "wf_bitmap b"
    and in1: "\<And>a. a \<in> addrs b \<Longrightarrow> length (heap s0) \<le> a \<and> a < length (heap s)"
    and live1: "\<And>a. \<lbrakk>length (heap s0) \<le> a; a < length (heap s); heap s ! a \<noteq> None\<rbrakk>
        \<Longrightarrow> a \<in> addrs b"
    by (rule ownedE) (rule that)
  from clear_holds [OF wf owned_holds [OF o]] c
  have b2: "b2 = Bitmap None (b_size b) None"
    and h: "heap s3 = release (addrs b) (heap s)"
    and g: "grants s3 = grants s" "err s3 = err s"
    by auto
  have l3: "length (heap s3) = length (heap s)" unfolding h by simp
  have l0: "length (heap s0) \<le> length (heap s)" unfolding ext by simp
  have "take (length (heap s0)) (heap s3) = heap s0"
  proof (rule nth_equalityI)
    show "length (take (length (heap s0)) (heap s3)) = length (heap s0)"
      using l3 l0 by simp
  next
    fix i
    assume "i < length (take (length (heap s0)) (heap s3))"
    then have i: "i < length (heap s0)" by simp
    then have ni: "i \<notin> addrs b" using in1 [of i] by auto
    have "heap s3 ! i = heap s ! i"
      unfolding h using i l0 ni by simp
    also have "\<dots> = heap s0 ! i" unfolding ext using i by (simp add: nth_append)
    finally show "take (length (heap s0)) (heap s3) ! i = heap s0 ! i"
      using i by simp
  qed
  then have e3: "heap s3 = heap s0 @ drop (length (heap s0)) (heap s3)"
    by (metis append_take_drop_id)
  have ad: "addrs b2 = {}" unfolding b2 by simp
  have "owned s0 b2 s3"
  proof (rule ownedI [OF e3])
    show "wf_bitmap b2" unfolding b2 by simp
  next
    show "holds b2 s3" unfolding b2 by (simp add: holds_def)
  next
    fix a
    assume "a \<in> addrs b2"
    then show "length (heap s0) \<le> a \<and> a < length (heap s3)" unfolding ad by simp
  next
    fix a
    assume a: "length (heap s0) \<le> a" "a < length (heap s3)" "heap s3 ! a \<noteq> None"
    have al: "a < length (heap s)" using a(2) l3 by simp
    have r: "heap s3 ! a = (if a \<in> addrs b then None else heap s ! a)"
      unfolding h using al by simp
    from a(3) r have "a \<notin> addrs b" "heap s ! a \<noteq> None" by (auto split: if_splits)
    with live1 [OF a(1) al] have False by simp
    then show "a \<in> addrs b2" ..
  qed
  then show ?thesis using b2 g by simp
qed

lemma addrs_set_child:
  assumes "child b idx = Some c" "addrs c = {}"
  shows "addrs (set_child b idx c') = addrs b \<union> addrs c'"
proof -
  obtain d n a cs where b: "b = Bitmap d n (Some (a, cs))"
    using assms(1) by (cases b) (auto simp: child_def split: option.splits)
  have idx: "idx < length cs" and c: "cs ! idx = c"
    using assms(1) b by (auto simp: child_def split: if_splits)
  have "(\<Union>x \<in> set (cs[idx := c']). addrs x) = (\<Union>x \<in> set cs. addrs x) \<union> addrs c'"
  proof (intro equalityI subsetI)
    fix y
    assume "y \<in> (\<Union>x \<in> set (cs[idx := c']). addrs x)"
    then obtain x where "x \<in> set (cs[idx := c'])" "y \<in> addrs x" by blast
    then show "y \<in> (\<Union>x \<in> set cs. addrs x) \<union> addrs c'"
      using set_update_subset_insert [of cs idx c'] by auto
  next
    fix y
    assume "y \<in> (\<Union>x \<in> set cs. addrs x) \<union> addrs c'"
    then consider "y \<in> addrs c'" | x where "x \<in> set cs" "y \<in> addrs x" by blast
    then show "y \<in> (\<Union>x \<in> set (cs[idx := c']). addrs x)"
    proof cases
      case 1
      then show ?thesis using idx by (auto intro: set_update_memI)
    next
      case 2
      then obtain j where j: "j < length cs" "cs ! j = x" by (auto simp: in_set_conv_nth)
      with 2 c assms(2) have "j \<noteq> idx" by auto
      then have "cs[idx := c'] ! j = x" using j by simp
      then have "x \<in> set (cs[idx := c'])"
        using j by (metis length_list_update nth_mem)
      with 2 show ?thesis by blast
    qed
  qed
  then show ?thesis using b by (auto simp: set_child_def)
qed

lemma wf_set_child:
  assumes "wf_bitmap b" "wf_bitmap c'"
  shows "wf_bitmap (set_child b idx c')"
proof (cases b)
  case (Bitmap d n nx)
  show ?thesis
  proof (cases nx)
    case None
    then show ?thesis using Bitmap by (simp add: set_child_def)
  next
    case (Some p)
    obtain a cs where p: "p = (a, cs)" by (cases p)
    have "\<forall>c \<in> set (cs[idx := c']). wf_bitmap c"
      using assms Bitmap Some p set_update_subset_insert [of cs idx c'] by auto
    then show ?thesis using assms Bitmap Some p by (simp add: set_child_def)
  qed
qed

lemma addr_list_set_child:
  assumes ch: "child b idx = Some c" and e: "addr_list c = []"
    and d: "distinct (addr_list b)" "distinct (addr_list c')"
    and dj: "addrs b \<inter> addrs c' = {}"
  shows "distinct (addr_list (set_child b idx c'))"
proof -
  obtain dt n a cs where b: "b = Bitmap dt n (Some (a, cs))"
    using ch by (cases b) (auto simp: child_def split: option.splits)
  have idx: "idx < length cs" and c: "cs ! idx = c"
    using ch b by (auto simp: child_def split: if_splits)
  define lead where "lead = concat (map addr_list (take idx cs))"
  define rest where "rest = concat (map addr_list (drop (Suc idx) cs))"
  have "concat (map addr_list cs) =
      concat (map addr_list (take idx cs @ cs ! idx # drop (Suc idx) cs))"
    by (simp only: id_take_nth_drop [OF idx, symmetric])
  then have old: "concat (map addr_list cs) = lead @ rest"
    unfolding c by (simp add: lead_def rest_def e)
  have new: "concat (map addr_list (cs[idx := c'])) = lead @ addr_list c' @ rest"
    unfolding upd_conv_take_nth_drop [OF idx] by (simp add: lead_def rest_def)
  have lb: "addr_list b = (case dt of None \<Rightarrow> [] | Some x \<Rightarrow> [x]) @ (lead @ rest) @ [a]"
    unfolding b by (simp add: old)
  have ls: "addr_list (set_child b idx c') =
      (case dt of None \<Rightarrow> [] | Some x \<Rightarrow> [x]) @ (lead @ addr_list c' @ rest) @ [a]"
    unfolding b by (simp add: set_child_def new)
  have ab: "addrs b = set_option dt \<union> set lead \<union> set rest \<union> {a}"
    unfolding set_addr_list [symmetric] lb by auto
  from d(1) have d1: "distinct lead" "distinct rest" "set lead \<inter> set rest = {}"
    "a \<notin> set lead" "a \<notin> set rest" "a \<notin> set_option dt"
    "set_option dt \<inter> set lead = {}" "set_option dt \<inter> set rest = {}"
    "distinct (case dt of None \<Rightarrow> [] | Some x \<Rightarrow> [x])"
    unfolding lb by auto
  from dj have d2: "set lead \<inter> addrs c' = {}" "set rest \<inter> addrs c' = {}"
    "a \<notin> addrs c'" "set_option dt \<inter> addrs c' = {}"
    unfolding ab by auto
  show ?thesis
    unfolding ls using d1 d2 d(2) by (auto simp: Int_commute)
qed

lemma owned_child:
  assumes o: "owned s0 b s" and ch: "child b idx = Some xnd_bitmap_empty"
    and oc: "owned s c' s'"
  shows "owned s0 (set_child b idx c') s'"
proof -
  from o obtain ext where ext: "heap s = heap s0 @ ext" and wfb: "wf_bitmap b"
    and in1: "\<And>a. a \<in> addrs b \<Longrightarrow> length (heap s0) \<le> a \<and> a < length (heap s)"
    and live1: "\<And>a. \<lbrakk>length (heap s0) \<le> a; a < length (heap s); heap s ! a \<noteq> None\<rbrakk>
        \<Longrightarrow> a \<in> addrs b"
    by (rule ownedE) (rule that)
  from oc obtain ext' where ext': "heap s' = heap s @ ext'" and wfc: "wf_bitmap c'"
    and in2: "\<And>a. a \<in> addrs c' \<Longrightarrow> length (heap s) \<le> a \<and> a < length (heap s')"
    and live2: "\<And>a. \<lbrakk>length (heap s) \<le> a; a < length (heap s'); heap s' ! a \<noteq> None\<rbrakk>
        \<Longrightarrow> a \<in> addrs c'"
    by (rule ownedE) (rule that)
  have ad: "addrs (set_child b idx c') = addrs b \<union> addrs c'"
    using ch by (rule addrs_set_child) simp
  have l0: "length (heap s0) \<le> length (heap s)" unfolding ext by simp
  have l1: "length (heap s) \<le> length (heap s')" unfolding ext' by simp
  have hb: "holds b s" using o by (rule owned_holds)
  have hc: "holds c' s'" using oc by (rule owned_holds)
  have db: "distinct (addr_list b)" using hb by (rule holdsE)
  have dc: "distinct (addr_list c')" using hc by (rule holdsE)
  have lvb: "a < length (heap s) \<and> heap s ! a \<noteq> None" if "a \<in> addrs b" for a
    using hb that unfolding holds_def by blast
  have lvc: "a < length (heap s') \<and> heap s' ! a \<noteq> None" if "a \<in> addrs c'" for a
    using hc that unfolding holds_def by blast
  have dj: "addrs b \<inter> addrs c' = {}"
  proof (rule ccontr)
    assume "addrs b \<inter> addrs c' \<noteq> {}"
    then obtain a where "a \<in> addrs b" "a \<in> addrs c'" by blast
    with in1 [of a] in2 [of a] show False by simp
  qed
  show ?thesis
  proof (rule ownedI)
    show "heap s' = heap s0 @ (ext @ ext')" unfolding ext' ext by simp
    show "wf_bitmap (set_child b idx c')" using wfb wfc by (rule wf_set_child)
    show "holds (set_child b idx c') s'"
    proof (rule holdsI)
      show "distinct (addr_list (set_child b idx c'))"
        using ch _ db dc dj by (rule addr_list_set_child) simp
    next
      fix a
      assume "a \<in> addrs (set_child b idx c')"
      then consider "a \<in> addrs b" | "a \<in> addrs c'" unfolding ad by blast
      then show "a < length (heap s') \<and> heap s' ! a \<noteq> None"
      proof cases
        case 1
        from lvb [OF 1] show ?thesis unfolding ext' by (simp add: nth_append)
      next
        case 2
        then show ?thesis by (rule lvc)
      qed
    qed
  next
    fix a
    assume "a \<in> addrs (set_child b idx c')"
    then consider "a \<in> addrs b" | "a \<in> addrs c'" unfolding ad by blast
    then show "length (heap s0) \<le> a \<and> a < length (heap s')"
    proof cases
      case 1
      then show ?thesis using in1 [of a] l1 by simp
    next
      case 2
      then show ?thesis using in2 [of a] l0 by simp
    qed
  next
    fix a
    assume a: "length (heap s0) \<le> a" "a < length (heap s')" "heap s' ! a \<noteq> None"
    show "a \<in> addrs (set_child b idx c')"
    proof (cases "a < length (heap s)")
      case True
      then have "heap s' ! a = heap s ! a" unfolding ext' by (simp add: nth_append)
      with a True have "a \<in> addrs b" by (intro live1) simp_all
      then show ?thesis unfolding ad by simp
    next
      case False
      then have "a \<in> addrs c'" using a by (intro live2) simp_all
      then show ?thesis unfolding ad by simp
    qed
  qed
qed

lemma postI:
  assumes "owned s0 b' s'" "requests rc s s'" "rc = - 1 \<longrightarrow> b_data b' = None \<and> b_next b' = None"
  shows "post s0 s (rc, b', s')"
  using assms unfolding post_def by simp

lemma postE:
  assumes "post s0 s (rc, b', s')"
  obtains "owned s0 b' s'" "requests rc s s'" "rc = - 1 \<longrightarrow> b_data b' = None \<and> b_next b' = None"
  using assms unfolding post_def by simp

lemma post_after:
  assumes "requests 0 s s1" "post s0 s1 r"
  shows "post s0 s r"
proof -
  obtain rc b' s' where r: "r = (rc, b', s')" by (cases r)
  from assms(2) [unfolded r] show ?thesis
    unfolding r
  proof (rule postE)
    assume "owned s0 b' s'" "requests rc s1 s'"
      "rc = - 1 \<longrightarrow> b_data b' = None \<and> b_next b' = None"
    then show "post s0 s (rc, b', s')"
      using requests_trans [OF assms(1)] by (intro postI)
  qed
qed

lemma requests_rc:
  assumes "requests rc s s'"
  shows "rc = 0 \<or> rc = - 1"
  using assms unfolding requests_def by blast

text \<open>
  Every result of \<^verbatim>\<open>bitmap_init\<close> satisfies \<open>post\<close>: the node owns exactly the new
  blocks that are live, and after a failure it owns nothing.
\<close>

lemma builder_post:
  assumes "bitmap_init b t nitems s = Some r"
  shows "post s s r"
proof (rule builder_induct [OF assms,
      where P = "\<lambda>t nitems s r. post s s r"
        and Q = "\<lambda>b ts n i k s r. \<forall>s0. owned s0 b s \<longrightarrow> post s0 s r"], goal_cases)
  case (1 t nitems s s1)
  from data_step_Inl [OF 1(2)] have h: "heap s1 = heap s" and rq: "requests (- 1) s s1"
    by simp_all
  have "owned s xnd_bitmap_empty s1"
    using owned_start h by (rule owned_same_heap)
  then show ?case
    using rq by (intro postI) (simp_all add: xnd_bitmap_empty_def)
next
  case (2 t nitems s b1 s1)
  from data_step_Inr [OF 2(2)] show ?case by (intro postI) simp_all
next
  case (3 h shape e nitems s r)
  then show ?case by simp
next
  case (4 h offsets dtype nitems s r)
  then show ?case by simp
next
  case (5 t h ts nitems s b1 s1 s2 b2 s3)
  from data_step_Inr [OF 5(4)] have o1: "owned s b1 s1" and r1: "requests 0 s s1"
    by simp_all
  have h2: "heap s2 = heap s1" and r2: "requests (- 1) s1 s2"
    using 5(5) by (cases "nitems * of_nat (length ts)" s1 rule: array_new_cases; simp)+
  have "owned s b1 s2" using o1 h2 by (rule owned_same_heap)
  from owned_clear [OF this 5(6)]
  have o3: "owned s b2 s3" and b2: "b2 = Bitmap None (b_size b1) None"
    and g: "grants s3 = grants s2" "err s3 = err s2"
    by blast+
  have "requests (- 1) s s3"
    using requests_trans [OF r1 r2] g by (rule requests_same)
  then show ?case
    using o3 b2 by (intro postI) simp_all
next
  case (6 t h ts nitems s b1 s1 arr s2 r)
  let ?n = "nitems * of_nat (length ts)"
  from data_step_Inr [OF 6(4)] have o1: "owned s b1 s1" and r1: "requests 0 s s1"
    and nx: "b_next b1 = None"
    by simp_all
  have arr: "arr = (length (heap s1), replicate (unat ?n) xnd_bitmap_empty)"
    and h2: "heap s2 = heap s1 @ [Some (Nodes (unat ?n))]"
    and r2: "requests 0 s1 s2" and fit: "unat ?n * sizeof_xnd_bitmap < 2 ^ 64"
    using 6(5) by (cases ?n s1 rule: array_new_cases; simp)+
  have "owned s (Bitmap (b_data b1) ?n (Some arr)) s2"
    unfolding arr using o1 nx h2 fit by (rule owned_array)
  with 6(7) have "post s s2 r" by blast
  with requests_trans [OF r1 r2] show ?case by (rule post_after)
next
  case (7 b ts nitems i k s)
  show ?case
    by (intro allI impI postI) (simp_all add: requests_none)
next
  case (8 b ts nitems i k s r)
  then show ?case by simp
next
  case (9 b ts nitems i k s rc c' s' b' s'')
  show ?case
  proof (intro allI impI)
    fix s0
    assume o: "owned s0 b s"
    from 9(6) have oc: "owned s c' s'" and rq: "requests rc s s'"
      by (auto elim: postE)
    have rc: "rc = - 1" using requests_rc [OF rq] 9(7) by auto
    have "owned s0 (set_child b (i * length ts + k) c') s'"
      using o 9(4) oc by (rule owned_child)
    from owned_clear [OF this 9(8)]
    have o3: "owned s0 b' s''" and b': "b' = Bitmap None (b_size (set_child b (i * length ts + k) c')) None"
      and g: "grants s'' = grants s'" "err s'' = err s'"
      by blast+
    have "requests (- 1) s s''"
      using rq [unfolded rc] g by (rule requests_same)
    then show "post s0 s (- 1, b', s'')"
      using o3 b' by (intro postI) simp_all
  qed
next
  case (10 b ts nitems i k s rc c' s' r)
  show ?case
  proof (intro allI impI)
    fix s0
    assume o: "owned s0 b s"
    from 10(6) have oc: "owned s c' s'" and rq: "requests rc s s'"
      by (auto elim: postE)
    have rc: "rc = 0" using requests_rc [OF rq] 10(7) by auto
    have "owned s0 (set_child b (i * length ts + k) c') s'"
      using o 10(4) oc by (rule owned_child)
    with 10(9) have "post s0 s' r" by blast
    with rq [unfolded rc] show "post s0 s r" by (rule post_after)
  qed
qed

section \<open>The builder returns\<close>

lemma unat_count:
  fixes nitems :: int64
  assumes "0 \<le> sint nitems" "sint nitems * int L < 2 ^ 63"
  shows "unat (nitems * of_nat L) = nat (sint nitems) * L"
proof (cases "sint nitems = 0")
  case True
  then have "nitems = 0" by (metis signed_eq_0_iff)
  then show ?thesis by simp
next
  case False
  with assms(1) have pos: "0 < sint nitems" by simp
  let ?N = "nat (sint nitems)"
  have N: "int ?N = sint nitems" using assms(1) by simp
  have "int L \<le> sint nitems * int L" using pos by (simp add: mult_le_cancel_right1)
  then have L: "int L < 2 ^ 63" using assms(2) by linarith
  have nl: "int (?N * L) < 2 ^ 63" using assms(2) N by simp
  have "nitems = word_of_int (sint nitems)" by simp
  also have "\<dots> = word_of_int (int ?N)" unfolding N ..
  also have "\<dots> = of_nat ?N" by simp
  finally have "nitems = of_nat ?N" .
  then have "nitems * of_nat L = (of_nat (?N * L) :: int64)" by simp
  then have "unat (nitems * of_nat L) = unat (of_nat (?N * L) :: int64)" by simp
  also have "\<dots> = ?N * L"
  proof -
    have "?N * L < 2 ^ 63" using nl unfolding int_less_2p63 .
    then have "?N * L < 2 ^ LENGTH(64)" by simp
    then show ?thesis by (simp only: unat_of_nat mod_less)
  qed
  finally show ?thesis .
qed

lemma clear_returns:
  assumes "owned s0 b s"
  shows "\<exists>r. xnd_bitmap_clear b s = Some r"
proof -
  have "wf_bitmap b" using assms by (rule ownedE)
  from clear_holds [OF this owned_holds [OF assms]] show ?thesis by blast
qed

lemma loop_ready_child:
  assumes "loop_ready b L N i k" "i < N" "k < L"
  shows "child b (i * L + k) = Some xnd_bitmap_empty"
proof -
  from assms(1) obtain a cs where nx: "b_next b = Some (a, cs)" and len: "length cs = N * L"
    and e: "\<forall>j. i * L + k \<le> j \<and> j < N * L \<longrightarrow> cs ! j = xnd_bitmap_empty"
    unfolding loop_ready_def by blast
  have "i * L + k < Suc i * L" using assms(3) by simp
  also have "\<dots> \<le> N * L" using assms(2) by (intro mult_le_mono1) simp
  finally have lt: "i * L + k < N * L" .
  with e have "cs ! (i * L + k) = xnd_bitmap_empty" by simp
  then show ?thesis using nx len lt by (simp add: child_def)
qed

lemma loop_ready_step:
  assumes "loop_ready b L N i k" "k < L" "wf_bitmap c'"
  shows "loop_ready (set_child b (i * L + k) c') L N i (Suc k)"
proof -
  from assms(1) obtain a cs where nx: "b_next b = Some (a, cs)" and len: "length cs = N * L"
    and e: "\<forall>j. i * L + k \<le> j \<and> j < N * L \<longrightarrow> cs ! j = xnd_bitmap_empty"
    and wf: "wf_bitmap b"
    unfolding loop_ready_def by blast
  have nx': "b_next (set_child b (i * L + k) c') = Some (a, cs[i * L + k := c'])"
    using nx by (simp add: set_child_def)
  have "\<forall>j. i * L + Suc k \<le> j \<and> j < N * L \<longrightarrow> cs[i * L + k := c'] ! j = xnd_bitmap_empty"
    using e by simp
  then show ?thesis
    unfolding loop_ready_def
    using nx' len assms(2) wf_set_child [OF wf assms(3)] by simp
qed

lemma loop_ready_row:
  assumes "loop_ready b L N i k" "\<not> k < L"
  shows "loop_ready b L N (Suc i) 0"
proof -
  from assms have "k = L" unfolding loop_ready_def by simp
  then have "Suc i * L + 0 = i * L + k" by simp
  then show ?thesis
    using assms(1) unfolding loop_ready_def by (simp add: add.commute)
qed

lemma loop_ready_start:
  assumes "unat n = N * L" "unat n * sizeof_xnd_bitmap < 2 ^ 64"
  shows "loop_ready (Bitmap d n (Some (a, replicate (unat n) xnd_bitmap_empty))) L N 0 0"
proof -
  have "unat n < 2 ^ 63" using assms(2) by (simp add: sizeof_xnd_bitmap_def)
  then have "nat (sint n) = unat n" by (rule nat_sint_small)
  then show ?thesis
    unfolding loop_ready_def using assms(1) by simp
qed

lemma build_defined_concrete:
  assumes "build_defined t nitems"
  shows "ndt_is_concrete t"
  using assms by (cases t) (simp_all add: ndt_is_concrete_def)

lemma data_step_raw:
  "(if t_ndim t = 0 \<and> ndt_is_optional t
    then case bits_new nitems s of
           (None, s1) \<Rightarrow> Inl s1
         | (Some a, s1) \<Rightarrow>
             Inr (Bitmap (Some a) (b_size xnd_bitmap_empty) (b_next xnd_bitmap_empty), s1)
    else Inr (xnd_bitmap_empty, s)) = data_step t nitems s"
  by (auto simp: data_step_def xnd_bitmap_empty_def split: prod.splits option.splits)

lemma builder_returns:
  "b = xnd_bitmap_empty \<Longrightarrow> build_defined t nitems \<Longrightarrow>
     \<exists>r. bitmap_init b t nitems s = Some r"
  "loop_ready c (length ts) n i k \<Longrightarrow> \<exists>s0. owned s0 c s' \<Longrightarrow>
     (\<forall>f \<in> set ts. build_defined f 1) \<Longrightarrow> int (n * length ts) < 2 ^ 63 \<Longrightarrow>
     \<exists>r. init_loop c ts n i k s' = Some r"
proof (induction b t nitems s and c ts n i k s' rule: bitmap_init_init_loop.induct)
  case (1 b t nitems s)
  note b = "1.prems"(1) and bd = "1.prems"(2)
  have conc: "ndt_is_concrete t" using bd by (rule build_defined_concrete)
  have pre: "\<not> (\<not> ndt_is_concrete t \<or> b_data b \<noteq> None \<or> b_size b \<noteq> 0 \<or> b_next b \<noteq> None)"
    using b conc by (simp add: xnd_bitmap_empty_def)
  note raw = data_step_raw [of t nitems s, folded b]
  have fields: "\<exists>r. init_fields b1 ts nitems s1 = Some r"
    if ds: "data_step t nitems s = Inr (b1, s1)" and tt: "t = Tuple h ts \<or> t = Record h ts"
      and sub: "ndt_subtree_is_optional t" for b1 s1 h ts
  proof -
    from bd tt sub have nn: "0 \<le> sint nitems"
      and fit: "sint nitems * int (length ts) < 2 ^ 63"
      and fs: "\<forall>f \<in> set ts. build_defined f 1"
      by (auto simp: ndt_subtree_is_optional_def)
    from data_step_Inr [OF ds] have nx: "b_next b1 = None" and o1: "owned s b1 s1" by simp_all
    let ?n = "nitems * of_nat (length ts)"
    show ?thesis
    proof (cases ?n s1 rule: array_new_cases)
      case (denied s2)
      have "owned s b1 s2" using o1 denied(2) by (rule owned_same_heap)
      from clear_returns [OF this] obtain b2 s3 where
        "xnd_bitmap_clear b1 s2 = Some (b2, s3)" by auto
      then show ?thesis using denied by (simp add: init_fields_def Let_def)
    next
      case (granted s2)
      let ?arr = "(length (heap s1), replicate (unat ?n) xnd_bitmap_empty)"
      have cnt: "unat ?n = nat (sint nitems) * length ts" using nn fit by (rule unat_count)
      have ready: "loop_ready (Bitmap (b_data b1) ?n (Some ?arr)) (length ts)
          (nat (sint nitems)) 0 0"
        using cnt granted(4) by (rule loop_ready_start)
      have "owned s (Bitmap (b_data b1) ?n (Some ?arr)) s2"
        using o1 nx granted(2) granted(4) by (rule owned_array)
      then have own: "\<exists>s0. owned s0 (Bitmap (b_data b1) ?n (Some ?arr)) s2" ..
      have bound: "int (nat (sint nitems) * length ts) < 2 ^ 63" using nn fit by simp
      have nsub: "\<not> \<not> ndt_subtree_is_optional t" using sub by simp
      have "\<exists>r. init_loop (Bitmap (b_data b1) ?n (Some ?arr)) ts (nat (sint nitems)) 0 0 s2
          = Some r"
        using tt
      proof
        assume t: "t = Tuple h ts"
        show ?thesis
          by (rule "1.IH"(3) [OF pre raw [unfolded ds] refl nsub t refl granted(1) [symmetric] refl
                ready own fs bound])
      next
        assume t: "t = Record h ts"
        show ?thesis
          by (rule "1.IH"(4) [OF pre raw [unfolded ds] refl nsub t refl granted(1) [symmetric] refl
                ready own fs bound])
      qed
      then show ?thesis using granted by (simp add: init_fields_def Let_def)
    qed
  qed
  show ?case
  proof (cases t nitems s rule: data_step_cases)
    case (nomem s1)
    then show ?thesis using b conc by (simp add: bitmap_init_unfold)
  next
    case (data a s1)
    show ?thesis
    proof (cases "ndt_subtree_is_optional t")
      case False
      then show ?thesis using b conc data by (simp add: bitmap_init_unfold)
    next
      case True
      show ?thesis
      proof (cases t)
        case (FixedDim h shape e)
        with bd True data show ?thesis
          by (simp add: ndt_subtree_is_optional_def t_ndim_def ndt_is_optional_def)
      next
        case (VarDim h offsets dtype)
        with bd True data show ?thesis
          by (simp add: ndt_subtree_is_optional_def t_ndim_def ndt_is_optional_def)
      next
        case (Tuple h ts)
        with fields [OF data(4) _ True] b conc data True show ?thesis
          by (simp add: bitmap_init_unfold)
      next
        case (Record h ts)
        with fields [OF data(4) _ True] b conc data True show ?thesis
          by (simp add: bitmap_init_unfold)
      next
        case (Other h)
        then show ?thesis using b conc data True by (simp add: bitmap_init_unfold)
      qed
    qed
  next
    case nodata
    show ?thesis
    proof (cases "ndt_subtree_is_optional t")
      case False
      then show ?thesis using b conc nodata by (simp add: bitmap_init_unfold)
    next
      case True
      have nsub: "\<not> \<not> ndt_subtree_is_optional t" using True by simp
      show ?thesis
      proof (cases t)
        case (FixedDim h shape e)
        from bd True FixedDim have "build_defined e (nitems * shape)"
          by (simp add: ndt_subtree_is_optional_def)
        from "1.IH"(1) [OF pre raw [unfolded nodata(2)] refl nsub FixedDim refl this]
        show ?thesis using b conc nodata True FixedDim by (simp add: bitmap_init_unfold)
      next
        case (VarDim h offsets dtype)
        from bd True VarDim have ne: "offsets \<noteq> []" and "build_defined dtype (last offsets)"
          by (simp_all add: ndt_subtree_is_optional_def)
        from "1.IH"(2) [OF pre raw [unfolded nodata(2)] refl nsub VarDim ne refl this(2)]
        show ?thesis using b conc nodata True VarDim ne by (simp add: bitmap_init_unfold)
      next
        case (Tuple h ts)
        with fields [OF nodata(2) _ True] b conc nodata True show ?thesis
          by (simp add: bitmap_init_unfold)
      next
        case (Record h ts)
        with fields [OF nodata(2) _ True] b conc nodata True show ?thesis
          by (simp add: bitmap_init_unfold)
      next
        case (Other h)
        then show ?thesis using b conc nodata True by (simp add: bitmap_init_unfold)
      qed
    qed
  qed
next
  case (2 b ts nitems i k s)
  note ready = "2.prems"(1) and own = "2.prems"(2) and fs = "2.prems"(3)
    and bound = "2.prems"(4)
  from own obtain s0 where o: "owned s0 b s" ..
  show ?case
  proof (cases "i < nitems")
    case False
    then show ?thesis by (subst init_loop.simps) simp
  next
    case i: True
    show ?thesis
    proof (cases "k < length ts")
      case False
      from "2.IH"(3) [OF i False loop_ready_row [OF ready False] own fs bound]
      show ?thesis using i False by (subst init_loop.simps) simp
    next
      case k: True
      let ?idx = "i * length ts + k"
      have "?idx < Suc i * length ts" using k by simp
      also have "\<dots> \<le> nitems * length ts" using i by (intro mult_le_mono1) simp
      finally have "?idx < nitems * length ts" .
      then have "int ?idx < int (nitems * length ts)" by (simp only: of_nat_less_iff)
      with bound have idx: "int ?idx < 2 ^ 63" by linarith
      then have idxn: "?idx < 2 ^ 63" unfolding int_less_2p63 .
      have nn: "\<not> \<not> int ?idx < 2 ^ 63" using idx by simp
      have ch: "child b ?idx = Some xnd_bitmap_empty"
        using ready i k by (rule loop_ready_child)
      have bdk: "build_defined (ts ! k) 1" using fs k by simp
      from "2.IH"(1) [OF i k refl nn ch refl bdk] obtain rc c' s' where
        ci: "bitmap_init xnd_bitmap_empty (ts ! k) 1 s = Some (rc, c', s')"
        by (metis prod_cases3)
      from builder_post [OF ci] have oc: "owned s c' s'" by (rule postE)
      then have wfc: "wf_bitmap c'" by (rule ownedE)
      have o': "owned s0 (set_child b ?idx c') s'" using o ch oc by (rule owned_child)
      then have own': "\<exists>s0. owned s0 (set_child b ?idx c') s'" ..
      have step: "init_loop b ts nitems i k s =
          (if rc < 0 then
             (case xnd_bitmap_clear (set_child b ?idx c') s' of
                None \<Rightarrow> None
              | Some (b', s'') \<Rightarrow> Some (- 1, b', s''))
           else init_loop (set_child b ?idx c') ts nitems i (Suc k) s')"
        using i k idxn ch ci by (subst init_loop.simps) (simp add: Let_def)
      have rd: "loop_ready (set_child b ?idx c') (length ts) nitems i (Suc k)"
        using ready k wfc by (rule loop_ready_step)
      show ?thesis
      proof (cases "rc < 0")
        case True
        from clear_returns [OF o'] obtain b' s'' where
          "xnd_bitmap_clear (set_child b ?idx c') s' = Some (b', s'')" by auto
        then show ?thesis using True unfolding step by simp
      next
        case False
        from "2.IH"(2) [OF i k refl nn ch ci refl refl False rd own' fs bound]
        show ?thesis using False unfolding step by simp
      qed
    qed
  qed
qed

section \<open>Claims about the builder: rollback\<close>

lemma owned_nothing:
  assumes "owned s b' s'" "addrs b' = {}"
  shows "\<exists>m. heap s' = heap s @ replicate m None"
proof -
  from assms(1) obtain ext where ext: "heap s' = heap s @ ext"
    and live: "\<And>a. \<lbrakk>length (heap s) \<le> a; a < length (heap s'); heap s' ! a \<noteq> None\<rbrakk>
        \<Longrightarrow> a \<in> addrs b'"
    by (rule ownedE) (rule that)
  have "ext ! j = None" if "j < length ext" for j
  proof (rule ccontr)
    assume "ext ! j \<noteq> None"
    then have "heap s' ! (length (heap s) + j) \<noteq> None"
      unfolding ext by simp
    then have "length (heap s) + j \<in> addrs b'"
      using that by (intro live) (simp_all add: ext)
    then show False using assms(2) by simp
  qed
  then have "ext = replicate (length ext) None"
    by (intro nth_equalityI) simp_all
  then show ?thesis using ext by metis
qed

text \<open>
  C1.  \<^verbatim>\<open>bitmap_init\<close> on an empty node returns 0 or -1 on every descriptor on which it
  is defined, whatever the allocator does.  When it returns 0, every request it made
  was granted and the error slot is untouched.  When it returns anything else, that is
  -1; the context holds \<open>MemoryError\<close>; the node has neither a buffer nor a child
  array; and the heap is the heap before the call followed by freed blocks only: no
  block allocated by the call is live, and no older block was touched.  This holds for
  every number of items, so for the top-level call \<^verbatim>\<open>xnd_bitmap_init\<close> and for each
  recursive call alike.
\<close>

theorem build_is_atomic:
  "(build_defined t nitems \<longrightarrow>
      (\<exists>rc b' s'. bitmap_init xnd_bitmap_empty t nitems s = Some (rc, b', s')))
   \<and> (\<forall>rc b' s'. bitmap_init xnd_bitmap_empty t nitems s = Some (rc, b', s') \<longrightarrow>
         (rc = 0 \<longrightarrow> err s' = err s \<and> (\<exists>k. grants s = replicate k True @ grants s')) \<and>
         (rc \<noteq> 0 \<longrightarrow> rc = - 1 \<and> err s' = Some MemoryError \<and>
            b_data b' = None \<and> b_next b' = None \<and>
            (\<exists>m. heap s' = heap s @ replicate m None)))
   \<and> xnd_bitmap_init xnd_bitmap_empty t s = bitmap_init xnd_bitmap_empty t 1 s"
proof (intro conjI impI allI)
  assume "build_defined t nitems"
  from builder_returns(1) [OF refl this, of s]
  show "\<exists>rc b' s'. bitmap_init xnd_bitmap_empty t nitems s = Some (rc, b', s')"
    by (metis prod_cases3)
next
  fix rc b' s'
  assume run: "bitmap_init xnd_bitmap_empty t nitems s = Some (rc, b', s')" and rc: "rc = 0"
  from builder_post [OF run] have "requests rc s s'" by (rule postE)
  then show "err s' = err s" using rc unfolding requests_def by blast
next
  fix rc b' s'
  assume run: "bitmap_init xnd_bitmap_empty t nitems s = Some (rc, b', s')" and rc: "rc = 0"
  from builder_post [OF run] have "requests rc s s'" by (rule postE)
  then obtain used where "grants s = used @ grants s'" "used = replicate (length used) True"
    using rc unfolding requests_def by blast
  then show "\<exists>k. grants s = replicate k True @ grants s'" by metis
next
  fix rc b' s'
  assume run: "bitmap_init xnd_bitmap_empty t nitems s = Some (rc, b', s')" and rc: "rc \<noteq> 0"
  have p: "post s s (rc, b', s')" using run by (rule builder_post)
  have o: "owned s b' s'" using p by (rule postE)
  have rq: "requests rc s s'" using p by (rule postE)
  have e: "rc = - 1 \<longrightarrow> b_data b' = None \<and> b_next b' = None" using p by (rule postE)
  show m1: "rc = - 1" using requests_rc [OF rq] rc by simp
  show "err s' = Some MemoryError" using rq m1 unfolding requests_def by blast
  show d: "b_data b' = None" and n: "b_next b' = None" using e m1 by simp_all
  have "addrs b' = {}" using d n by (cases b') simp
  with o show "\<exists>m. heap s' = heap s @ replicate m None" by (rule owned_nothing)
next
  show "xnd_bitmap_init xnd_bitmap_empty t s = bitmap_init xnd_bitmap_empty t 1 s"
    by (simp add: xnd_bitmap_init_def)
qed

theorem build_is_atomic_witness:
  "build_defined opt_tuple 2
   \<and> bitmap_init xnd_bitmap_empty opt_tuple 2 (mem0\<lparr>grants := [True, True, True, False]\<rparr>) =
       Some (- 1, Bitmap None 4 None,
             \<lparr>heap = [None, None, None], grants = [], err = Some MemoryError\<rparr>)
   \<and> (\<exists>m. [None, None, None] = heap (mem0\<lparr>grants := [True, True, True, False]\<rparr>) @ replicate m None)
   \<and> xnd_bitmap_init xnd_bitmap_empty opt_tuple mem0 =
       Some (0, Bitmap (Some 0) 2 (Some (1, [Bitmap (Some 2) 0 None, Bitmap None 0 None])),
             \<lparr>heap = [Some (Bytes [0]), Some (Nodes 2), Some (Bytes [0])], grants = [], err = None\<rparr>)
   \<and> (\<exists>k. grants mem0 = replicate k True @ [])"
proof -
  let ?s = "mem0\<lparr>grants := [True, True, True, False]\<rparr>"
  let ?s' = "\<lparr>heap = [None, None, None], grants = [], err = Some MemoryError\<rparr>"
  let ?t = "\<lparr>heap = [Some (Bytes [0]), Some (Nodes 2), Some (Bytes [0])], grants = [], err = None\<rparr>"
  let ?b = "Bitmap (Some 0) 2 (Some (1, [Bitmap (Some 2) 0 None, Bitmap None 0 None]))"
  have bd: "build_defined opt_tuple 2"
    by (simp add: opt_tuple_def opt_scalar_def plain_scalar_def)
  note fails = build_opt_tuple_fails
  have one: "xnd_bitmap_init xnd_bitmap_empty opt_tuple mem0 = Some (0, ?b, ?t)"
    using build_opt_tuple by (simp add: xnd_bitmap_init_def)
  from build_is_atomic [of opt_tuple 2 ?s] fails
  have "\<exists>m. heap ?s' = heap ?s @ replicate m None" by simp
  then have m: "\<exists>m. [None, None, None] = heap ?s @ replicate m None" by simp
  from build_is_atomic [of opt_tuple 1 mem0] build_opt_tuple
  have "\<exists>k. grants mem0 = replicate k True @ grants ?t" by simp
  then have k: "\<exists>k. grants mem0 = replicate k True @ []" by simp
  show ?thesis
    using bd fails m one k by blast
qed

section \<open>The child array of a product\<close>

lemma length_concat_replicate: "length (concat (replicate N ts)) = N * length ts"
  by (induction N) simp_all

lemma nth_concat_replicate:
  "i < N \<Longrightarrow> k < length ts \<Longrightarrow> concat (replicate N ts) ! (i * length ts + k) = ts ! k"
proof (induction i arbitrary: N)
  case 0
  then obtain M where "N = Suc M" by (cases N) auto
  then show ?case using 0 by (simp add: nth_append)
next
  case (Suc i)
  then obtain M where N: "N = Suc M" and i: "i < M" by (cases N) auto
  have "concat (replicate N ts) ! (Suc i * length ts + k)
      = (ts @ concat (replicate M ts)) ! (length ts + (i * length ts + k))"
    unfolding N by (simp add: add.assoc)
  also have "\<dots> = concat (replicate M ts) ! (i * length ts + k)"
    by (simp only: nth_append_length_plus)
  also have "\<dots> = ts ! k" using i Suc.prems(2) by (rule Suc.IH)
  finally show ?case .
qed

lemma build_each_length:
  "build_each ts s = Some (cs, s') \<Longrightarrow> length cs = length ts"
  by (induction ts arbitrary: s cs) (auto split: option.splits if_splits)

lemma build_each_nth:
  "build_each ts s = Some (cs, s') \<Longrightarrow> j < length ts \<Longrightarrow>
     \<exists>sa sb. bitmap_init xnd_bitmap_empty (ts ! j) 1 sa = Some (0, cs ! j, sb)"
proof (induction ts arbitrary: s cs j)
  case Nil
  then show ?case by simp
next
  case (Cons t ts)
  from Cons.prems(1) obtain c s1 cs1 where
    c: "bitmap_init xnd_bitmap_empty t 1 s = Some (0, c, s1)"
    and r: "build_each ts s1 = Some (cs1, s')" and cs: "cs = c # cs1"
    by (auto split: option.splits if_splits)
  show ?case
  proof (cases j)
    case 0
    then show ?thesis using c cs by auto
  next
    case (Suc m)
    with Cons.prems(2) have "m < length ts" by simp
    from Cons.IH [OF r this] show ?thesis using Suc cs by simp
  qed
qed


lemma b_next_set_child:
  "b_next b = Some (a, cs) \<Longrightarrow> b_next (set_child b idx c) = Some (a, cs[idx := c])"
  by (simp add: set_child_def)

lemma child_Some:
  assumes "child b idx = Some c" "b_next b = Some (a, cs)"
  shows "idx < length cs"
  using assms by (auto simp: child_def split: if_splits)

text \<open>
  A run of the loops that returns 0, started at the counters \<open>i\<close> and \<open>k\<close>, has built
  the remaining children in place, in the order of \<open>build_each\<close>, and has left the rest
  of the node as it was.
\<close>

lemma loop_builds:
  assumes "init_loop b ts N i k s = Some (0, b', s')"
    and "b_next b = Some (a, cs)" and "k \<le> length ts"
  shows "b_data b' = b_data b \<and> b_size b' = b_size b \<and>
    (\<exists>built. build_each (drop (i * length ts + k) (concat (replicate N ts))) s = Some (built, s') \<and>
       (built = [] \<or> i * length ts + k + length built \<le> length cs) \<and>
       b_next b' = Some (a, take (i * length ts + k) cs @ built @
                            drop (i * length ts + k + length built) cs))"
proof -
  define Q where "Q = (\<lambda>b ts N i k s (r :: int \<times> xnd_bitmap \<times> mem).
    \<forall>cs. b_next b = Some (a, cs) \<longrightarrow> k \<le> length ts \<longrightarrow> fst r = 0 \<longrightarrow>
      b_data (fst (snd r)) = b_data b \<and> b_size (fst (snd r)) = b_size b \<and>
      (\<exists>built. build_each (drop (i * length ts + k) (concat (replicate N ts))) s
                 = Some (built, snd (snd r)) \<and>
         (built = [] \<or> i * length ts + k + length built \<le> length cs) \<and>
         b_next (fst (snd r)) = Some (a, take (i * length ts + k) cs @ built @
                            drop (i * length ts + k + length built) cs)))"
  have "Q b ts N i k s (0, b', s')"
    using assms(1)
  proof (induction rule: loop_induct)
    case (loop_done b ts nitems i k s)
    have "nitems * length ts \<le> i * length ts"
      using loop_done by (intro mult_le_mono1) simp
    then have "nitems * length ts \<le> i * length ts + k" by (rule trans_le_add1)
    then have "length (concat (replicate nitems ts)) \<le> i * length ts + k"
      by (simp only: length_concat_replicate)
    then have "drop (i * length ts + k) (concat (replicate nitems ts)) = []"
      by (rule drop_all)
    then show ?case unfolding Q_def by simp
  next
    case (loop_row b ts nitems i k s r)
    show ?case
      unfolding Q_def
    proof (intro allI impI)
      fix cs
      assume nx: "b_next b = Some (a, cs)" and k: "k \<le> length ts" and rc: "fst r = 0"
      from k loop_row(2) have "k = length ts" by simp
      then have p: "Suc i * length ts + 0 = i * length ts + k" by simp
      from loop_row(4) [unfolded Q_def, rule_format, OF nx _ rc]
      show "b_data (fst (snd r)) = b_data b \<and> b_size (fst (snd r)) = b_size b \<and>
        (\<exists>built. build_each (drop (i * length ts + k) (concat (replicate nitems ts))) s
                 = Some (built, snd (snd r)) \<and>
          (built = [] \<or> i * length ts + k + length built \<le> length cs) \<and>
          b_next (fst (snd r)) = Some (a, take (i * length ts + k) cs @ built @
                            drop (i * length ts + k + length built) cs))"
        unfolding p by simp
    qed
  next
    case (child_fail b ts nitems i k s rc c' s' b' s'')
    show ?case unfolding Q_def by simp
  next
    case (child_ok b ts nitems i k s rc c' s1 r)
    let ?p = "i * length ts + k"
    let ?flat = "concat (replicate nitems ts)"
    show ?case
      unfolding Q_def
    proof (intro allI impI)
      fix cs
      assume nx: "b_next b = Some (a, cs)" and k: "k \<le> length ts" and rc0: "fst r = 0"
      have p: "?p < length cs" using child_ok(4) nx by (rule child_Some)
      have rq: "requests rc s s1"
        using builder_post [OF child_ok(5)] by (rule postE)
      have rc: "rc = 0" using requests_rc [OF rq] child_ok(6) by auto
      have "?p < Suc i * length ts" using child_ok(2) by simp
      also have "\<dots> \<le> nitems * length ts" using child_ok(1) by (intro mult_le_mono1) simp
      finally have pl: "?p < length ?flat" by (simp add: length_concat_replicate)
      have "?flat ! ?p = ts ! k" using child_ok(1,2) by (rule nth_concat_replicate)
      then have dr: "drop ?p ?flat = (ts ! k) # drop (Suc ?p) ?flat"
        using pl by (metis Cons_nth_drop_Suc)
      have nx1: "b_next (set_child b ?p c') = Some (a, cs[?p := c'])"
        using nx by (rule b_next_set_child)
      have sk: "i * length ts + Suc k = Suc ?p" by simp
      from child_ok(8) [unfolded Q_def, rule_format, OF nx1 _ rc0] child_ok(2)
      obtain built where
        d: "b_data (fst (snd r)) = b_data (set_child b ?p c')"
           "b_size (fst (snd r)) = b_size (set_child b ?p c')"
        and be: "build_each (drop (Suc ?p) ?flat) s1 = Some (built, snd (snd r))"
        and bd: "built = [] \<or> Suc ?p + length built \<le> length cs"
        and bn: "b_next (fst (snd r)) = Some (a, take (Suc ?p) (cs[?p := c']) @ built @
                            drop (Suc ?p + length built) (cs[?p := c']))"
        unfolding sk by auto
      have be': "build_each (drop ?p ?flat) s = Some (c' # built, snd (snd r))"
        unfolding dr using child_ok(5) rc be by simp
      have t: "take (Suc ?p) (cs[?p := c']) = take ?p cs @ [c']"
        using p by (simp add: take_Suc_conv_app_nth)
      have dd: "drop (Suc ?p + length built) (cs[?p := c']) = drop (Suc ?p + length built) cs"
        by simp
      have bd': "?p + length (c' # built) \<le> length cs"
        using bd p by auto
      show "b_data (fst (snd r)) = b_data b \<and> b_size (fst (snd r)) = b_size b \<and>
        (\<exists>built. build_each (drop ?p ?flat) s = Some (built, snd (snd r)) \<and>
          (built = [] \<or> ?p + length built \<le> length cs) \<and>
          b_next (fst (snd r)) = Some (a, take ?p cs @ built @ drop (?p + length built) cs))"
      proof (intro conjI exI [of _ "c' # built"])
        show "b_data (fst (snd r)) = b_data b" using d(1) by (simp add: set_child_def)
        show "b_size (fst (snd r)) = b_size b" using d(2) by (simp add: set_child_def)
        show "build_each (drop ?p ?flat) s = Some (c' # built, snd (snd r))" by (rule be')
        show "c' # built = [] \<or> ?p + length (c' # built) \<le> length cs" using bd' by simp
        show "b_next (fst (snd r)) = Some (a, take ?p cs @ (c' # built) @
            drop (?p + length (c' # built)) cs)"
          unfolding bn t dd by simp
      qed
    qed
  qed
  then show ?thesis
    unfolding Q_def using assms(2,3) by simp
qed

lemma word_of_count:
  fixes nitems :: int64
  assumes "0 \<le> sint nitems"
  shows "nitems * of_nat L = of_nat (nat (sint nitems) * L)"
proof -
  have N: "int (nat (sint nitems)) = sint nitems" using assms by simp
  have "nitems = word_of_int (sint nitems)" by simp
  also have "\<dots> = word_of_int (int (nat (sint nitems)))" unfolding N ..
  also have "\<dots> = of_nat (nat (sint nitems))" by simp
  finally have "nitems = of_nat (nat (sint nitems))" .
  then have "nitems * of_nat L = of_nat (nat (sint nitems)) * (of_nat L :: int64)" by simp
  then show ?thesis by simp
qed

lemma unat_count_le:
  fixes nitems :: int64
  assumes "0 \<le> sint nitems" "nat (sint nitems) * L \<le> unat (nitems * of_nat L)"
  shows "unat (nitems * of_nat L) = nat (sint nitems) * L"
proof -
  let ?x = "nat (sint nitems) * L"
  have u: "unat (nitems * of_nat L) = ?x mod 2 ^ LENGTH(64)"
    unfolding word_of_count [OF assms(1)] by (rule unat_of_nat)
  have "?x mod 2 ^ LENGTH(64) \<le> ?x" by (rule mod_less_eq_dividend)
  with assms(2) show ?thesis unfolding u by simp
qed

lemma init_fields_success:
  assumes "init_fields b1 ts nitems s1 = Some (0, b', s')"
  obtains s2 where
    "heap s2 = heap s1 @ [Some (Nodes (unat (nitems * of_nat (length ts))))]"
    "init_loop (Bitmap (b_data b1) (nitems * of_nat (length ts))
        (Some (length (heap s1),
               replicate (unat (nitems * of_nat (length ts))) xnd_bitmap_empty)))
      ts (nat (sint nitems)) 0 0 s2 = Some (0, b', s')"
proof (cases "nitems * of_nat (length ts)" s1 rule: array_new_cases)
  case (denied s2)
  with assms show ?thesis
    by (auto simp: init_fields_def Let_def split: option.splits)
next
  case (granted s2)
  with assms that [of s2] show ?thesis
    by (simp add: init_fields_def Let_def)
qed

lemma product_success:
  assumes run: "bitmap_init xnd_bitmap_empty t nitems s = Some (0, b', s')"
    and t: "t = Tuple h ts \<or> t = Record h ts" and sub: "subtree_opt h"
  obtains b1 s1 where "data_step t nitems s = Inr (b1, s1)"
    "init_fields b1 ts nitems s1 = Some (0, b', s')"
proof -
  have conc: "ndt_is_concrete t"
    using run bitmap_init_asserts [of t xnd_bitmap_empty nitems s] by auto
  have st: "ndt_subtree_is_optional t"
    using t sub by (auto simp: ndt_subtree_is_optional_def)
  show ?thesis
  proof (cases "data_step t nitems s")
    case (Inl s1)
    with run conc show ?thesis by (simp add: bitmap_init_unfold)
  next
    case (Inr p)
    obtain b1 s1 where p: "p = (b1, s1)" by (cases p)
    from run conc st Inr p t have "init_fields b1 ts nitems s1 = Some (0, b', s')"
      by (auto simp: bitmap_init_unfold)
    with Inr p show ?thesis by (intro that [of b1 s1]) simp_all
  qed
qed

lemma record_as_tuple:
  "bitmap_init b (Record h ts) nitems s = bitmap_init b (Tuple h ts) nitems s"
proof -
  have d: "data_step (Record h ts) nitems s = data_step (Tuple h ts) nitems s"
    by (simp add: data_step_def t_ndim_def ndt_is_optional_def)
  have c: "ndt_is_concrete (Record h ts) = ndt_is_concrete (Tuple h ts)"
    by (simp add: ndt_is_concrete_def)
  have o: "ndt_subtree_is_optional (Record h ts) = ndt_subtree_is_optional (Tuple h ts)"
    by (simp add: ndt_subtree_is_optional_def)
  show ?thesis
    unfolding bitmap_init_unfold [of b "Record h ts"] bitmap_init_unfold [of b "Tuple h ts"] d c o
    by (simp split: sum.splits prod.splits)
qed

section \<open>Claims about the builder: products\<close>

text \<open>
  C3.  Let \<^verbatim>\<open>bitmap_init\<close> return 0 on an empty node for a \<open>Tuple\<close> with the subtree flag
  set, the field types \<open>ts\<close> and at least one item.  Then the node has a child array;
  it is one block of \<open>nitems * length ts\<close> nodes, allocated by the call, and \<^verbatim>\<open>size\<close> is
  that number; the children are what building the field types one after the other, for
  each repetition in turn and each with one item on an empty node, returns (in
  particular the child at index \<open>rep * length ts + f\<close> is the node of a build of field
  \<open>f\<close> that returned 0); and the final state is the state after the last of these
  builds.  \<^verbatim>\<open>bitmap_init\<close> does on a \<open>Record\<close> what it does on the \<open>Tuple\<close> with the same
  members.
\<close>

theorem product_children:
  "(subtree_opt h \<and> 1 \<le> sint nitems \<and>
    bitmap_init xnd_bitmap_empty (Tuple h ts) nitems s = Some (0, b', s') \<longrightarrow>
      (\<exists>a cs s2. b_next b' = Some (a, cs) \<and> b_size b' = nitems * of_nat (length ts) \<and>
         length cs = nat (sint nitems) * length ts \<and>
         length (heap s) \<le> a \<and> a < length (heap s2) \<and>
         heap s2 ! a = Some (Nodes (nat (sint nitems) * length ts)) \<and>
         build_each (concat (replicate (nat (sint nitems)) ts)) s2 = Some (cs, s') \<and>
         (\<forall>rep f. rep < nat (sint nitems) \<and> f < length ts \<longrightarrow>
            (\<exists>sa sb. bitmap_init xnd_bitmap_empty (ts ! f) 1 sa =
                       Some (0, cs ! (rep * length ts + f), sb)))))
   \<and> bitmap_init b (Record h ts) nitems s = bitmap_init b (Tuple h ts) nitems s"
proof (intro conjI impI)
  show "bitmap_init b (Record h ts) nitems s = bitmap_init b (Tuple h ts) nitems s"
    by (rule record_as_tuple)
next
  assume a: "subtree_opt h \<and> 1 \<le> sint nitems \<and>
    bitmap_init xnd_bitmap_empty (Tuple h ts) nitems s = Some (0, b', s')"
  let ?N = "nat (sint nitems)"
  let ?L = "length ts"
  let ?n = "nitems * of_nat ?L"
  let ?flat = "concat (replicate ?N ts)"
  from a have sub: "subtree_opt h" and nn: "0 \<le> sint nitems"
    and run: "bitmap_init xnd_bitmap_empty (Tuple h ts) nitems s = Some (0, b', s')"
    by simp_all
  from run _ sub obtain b1 s1 where ds: "data_step (Tuple h ts) nitems s = Inr (b1, s1)"
    and f: "init_fields b1 ts nitems s1 = Some (0, b', s')"
    by (rule product_success) simp
  from f obtain s2 where h2: "heap s2 = heap s1 @ [Some (Nodes (unat ?n))]"
    and lp: "init_loop (Bitmap (b_data b1) ?n
          (Some (length (heap s1), replicate (unat ?n) xnd_bitmap_empty)))
        ts ?N 0 0 s2 = Some (0, b', s')"
    by (rule init_fields_success)
  from loop_builds [OF lp, of "length (heap s1)" "replicate (unat ?n) xnd_bitmap_empty"]
  obtain built where sz: "b_size b' = ?n"
    and be: "build_each ?flat s2 = Some (built, s')"
    and bd: "built = [] \<or> length built \<le> unat ?n"
    and bn: "b_next b' = Some (length (heap s1),
        built @ drop (length built) (replicate (unat ?n) xnd_bitmap_empty))"
    by auto
  have lb: "length built = ?N * ?L"
    using build_each_length [OF be] by (simp add: length_concat_replicate)
  have "?N * ?L \<le> unat ?n" using bd lb by auto
  with nn have cnt: "unat ?n = ?N * ?L" by (rule unat_count_le)
  have bn': "b_next b' = Some (length (heap s1), built)"
    using bn lb cnt by simp
  have "owned s b1 s1" using data_step_Inr [OF ds] by simp
  then obtain ext where "heap s1 = heap s @ ext" by (rule ownedE)
  then have lo: "length (heap s) \<le> length (heap s1)" by simp
  have each: "\<exists>sa sb. bitmap_init xnd_bitmap_empty (ts ! f) 1 sa =
      Some (0, built ! (rep * ?L + f), sb)"
    if "rep < ?N \<and> f < ?L" for rep f
  proof -
    from that have rep: "rep < ?N" and fl: "f < ?L" by simp_all
    have "rep * ?L + f < Suc rep * ?L" using fl by simp
    also have "\<dots> \<le> ?N * ?L" using rep by (intro mult_le_mono1) simp
    finally have j: "rep * ?L + f < length ?flat" by (simp add: length_concat_replicate)
    have "?flat ! (rep * ?L + f) = ts ! f" using rep fl by (rule nth_concat_replicate)
    with build_each_nth [OF be j] show ?thesis by simp
  qed
  show "\<exists>a cs s2. b_next b' = Some (a, cs) \<and> b_size b' = ?n \<and>
         length cs = ?N * ?L \<and> length (heap s) \<le> a \<and> a < length (heap s2) \<and>
         heap s2 ! a = Some (Nodes (?N * ?L)) \<and>
         build_each ?flat s2 = Some (cs, s') \<and>
         (\<forall>rep f. rep < ?N \<and> f < ?L \<longrightarrow>
            (\<exists>sa sb. bitmap_init xnd_bitmap_empty (ts ! f) 1 sa =
                       Some (0, cs ! (rep * ?L + f), sb)))"
  proof (rule exI [of _ "length (heap s1)"], rule exI [of _ built], rule exI [of _ s2],
      intro conjI)
    show "b_next b' = Some (length (heap s1), built)" by (rule bn')
    show "b_size b' = ?n" by (rule sz)
    show "length built = ?N * ?L" by (rule lb)
    show "length (heap s) \<le> length (heap s1)" by (rule lo)
    show "length (heap s1) < length (heap s2)" unfolding h2 by simp
    show "heap s2 ! length (heap s1) = Some (Nodes (?N * ?L))" unfolding h2 cnt by simp
    show "build_each ?flat s2 = Some (built, s')" by (rule be)
    show "\<forall>rep f. rep < ?N \<and> f < ?L \<longrightarrow>
        (\<exists>sa sb. bitmap_init xnd_bitmap_empty (ts ! f) 1 sa =
           Some (0, built ! (rep * ?L + f), sb))"
      using each by blast
  qed
qed
lemma build_tuple_two_items:
  "bitmap_init xnd_bitmap_empty tuple_opt_plain 2 mem0 =
     Some (0, Bitmap None 4 (Some (0, [Bitmap (Some 1) 0 None, Bitmap None 0 None,
                                       Bitmap (Some 2) 0 None, Bitmap None 0 None])),
           \<lparr>heap = [Some (Nodes 4), Some (Bytes [0]), Some (Bytes [0])], grants = [], err = None\<rparr>)"
  by (simp add: eval_defs)

theorem product_children_witness:
  "bitmap_init xnd_bitmap_empty tuple_opt_plain 2 mem0 =
     Some (0, Bitmap None 4 (Some (0, [Bitmap (Some 1) 0 None, Bitmap None 0 None,
                                       Bitmap (Some 2) 0 None, Bitmap None 0 None])),
           \<lparr>heap = [Some (Nodes 4), Some (Bytes [0]), Some (Bytes [0])], grants = [], err = None\<rparr>)
   \<and> (\<exists>s2. heap s2 ! 0 = Some (Nodes 4) \<and>
          build_each [opt_scalar, plain_scalar, opt_scalar, plain_scalar] s2 =
            Some ([Bitmap (Some 1) 0 None, Bitmap None 0 None,
                   Bitmap (Some 2) 0 None, Bitmap None 0 None],
                  \<lparr>heap = [Some (Nodes 4), Some (Bytes [0]), Some (Bytes [0])], grants = [],
                     err = None\<rparr>))
   \<and> (\<exists>sa sb. bitmap_init xnd_bitmap_empty opt_scalar 1 sa = Some (0, Bitmap (Some 2) 0 None, sb))"
proof -
  let ?h = "\<lparr>concrete = True, ndim = 0, opt = False, subtree_opt = True\<rparr>"
  let ?ts = "[opt_scalar, plain_scalar]"
  let ?cs = "[Bitmap (Some 1) 0 None, Bitmap None 0 None, Bitmap (Some 2) 0 None, Bitmap None 0 None]"
  let ?b = "Bitmap None 4 (Some (0, ?cs))"
  let ?s' = "\<lparr>heap = [Some (Nodes 4), Some (Bytes [0]), Some (Bytes [0])], grants = [], err = None\<rparr>"
  have run: "bitmap_init xnd_bitmap_empty (Tuple ?h ?ts) 2 mem0 = Some (0, ?b, ?s')"
    using build_tuple_two_items by (simp add: tuple_opt_plain_def)
  have two: "nat (sint (2 :: int64)) = 2" by simp
  have flat: "concat (replicate 2 ?ts) = [opt_scalar, plain_scalar, opt_scalar, plain_scalar]"
    by (simp add: numeral_2_eq_2)
  have prem: "subtree_opt ?h \<and> 1 \<le> sint (2 :: int64) \<and>
      bitmap_init xnd_bitmap_empty (Tuple ?h ?ts) 2 mem0 = Some (0, ?b, ?s')"
    using run by simp
  from product_children [of ?h 2 ?ts mem0 ?b ?s', THEN conjunct1, rule_format, OF prem]
  obtain a cs s2 where nx: "b_next ?b = Some (a, cs)"
    and hp: "heap s2 ! a = Some (Nodes (nat (sint (2 :: int64)) * length ?ts))"
    and be: "build_each (concat (replicate (nat (sint (2 :: int64))) ?ts)) s2 = Some (cs, ?s')"
    and each: "\<forall>rep f. rep < nat (sint (2 :: int64)) \<and> f < length ?ts \<longrightarrow>
        (\<exists>sa sb. bitmap_init xnd_bitmap_empty (?ts ! f) 1 sa =
           Some (0, cs ! (rep * length ?ts + f), sb))"
    by blast
  from nx have a: "a = 0" and cs: "cs = ?cs" by simp_all
  have 1: "heap s2 ! 0 = Some (Nodes 4)" using hp unfolding a two by simp
  have 2: "build_each [opt_scalar, plain_scalar, opt_scalar, plain_scalar] s2 = Some (?cs, ?s')"
    using be unfolding two flat cs .
  from each [rule_format, of 1 0]
  have 3: "\<exists>sa sb. bitmap_init xnd_bitmap_empty opt_scalar 1 sa = Some (0, Bitmap (Some 2) 0 None, sb)"
    unfolding two cs by simp
  show ?thesis
    using build_tuple_two_items 1 2 3 by blast
qed

section \<open>Claims about the builder: the states of a node\<close>








end
